theory Spec2Isabelle
  imports Main "HOL-Library.FSet" "HOL-Library.Word"
begin

section \<open>The TAPIR client: store/tapir/client.cc\<close>

text \<open>
  The transaction coordinator of \<^verbatim>\<open>store/tapir/client.cc\<close>, as a shallow embedding.
  The class \<^verbatim>\<open>Client\<close> is a record; every member function takes the record and returns
  the updated one. What the coordinator does to its collaborators (the per-shard
  \<^verbatim>\<open>BufferClient\<close> objects in \<^verbatim>\<open>bclient\<close> and the \<^verbatim>\<open>Promise\<close> objects it blocks on) is
  recorded, in program order, in the field \<open>calls\<close>. What the collaborators answer (the
  reply code and timestamp of a promise, the reading of the clock) is an input of the
  function that consumes it.
\<close>

subsection \<open>Data\<close>

text \<open>
  Modelled from the spec: the reply codes are \<^verbatim>\<open>int\<close> macros of a header that is not
  part of the sources. The spec gives the closed set OK, FAIL, RETRY, TIMEOUT, which are
  the four codes that the \<^verbatim>\<open>switch\<close> of \<^verbatim>\<open>Prepare\<close> names; any other \<^verbatim>\<open>int\<close> reaches
  its \<^verbatim>\<open>default\<close> branch and is kept here as \<open>REPLY_OTHER\<close>.
\<close>

datatype reply = REPLY_OK | REPLY_FAIL | REPLY_RETRY | REPLY_TIMEOUT | REPLY_OTHER int

text \<open>
  Modelled from the spec: the macros \<^verbatim>\<open>ASSERT\<close> and \<^verbatim>\<open>NOT_IMPLEMENTED()\<close> are
  declared outside the sources. The spec makes both fatal: a violated invariant and an
  unexpected reply code end the process, they are not returned to the caller.
\<close>

datatype error = Assertion_failed | Not_implemented

text \<open>
  Modelled from the spec: the class \<^verbatim>\<open>Timestamp\<close> is declared outside the sources. The
  spec describes a pair of a physical time and the identifier of the client; the
  coordinator builds it from two \<^verbatim>\<open>uint64_t\<close> values and uses the accessors below.
\<close>

record Timestamp =
  getTimestamp :: "64 word"
  getID :: "64 word"

definition setTimestamp :: "64 word \<Rightarrow> Timestamp \<Rightarrow> Timestamp" where
  "setTimestamp t timestamp = timestamp\<lparr>getTimestamp := t\<rparr>"

text \<open>
  A call of a member function of \<^verbatim>\<open>bclient[p]\<close>, and the calls that block on the promise
  handed to it (\<^verbatim>\<open>GetReply\<close>, \<^verbatim>\<open>GetValue\<close>, \<^verbatim>\<open>GetTimestamp\<close>).
\<close>

datatype request =
    Begin_req "64 word"
  | Get_req string
  | Put_req string string
  | Prepare_req Timestamp
  | Commit_req int
  | Abort_req

datatype event =
    Send int request
  | Await int

fun shard_of :: "event \<Rightarrow> int" where
  "shard_of (Send p r) = p"
| "shard_of (Await p) = p"

text \<open>
  Modelled from the spec: the declaration of the class \<^verbatim>\<open>Client\<close> is outside the
  sources. The record has the members that the member functions read or write, with the
  types of their uses: \<^verbatim>\<open>client_id\<close> and \<^verbatim>\<open>t_id\<close> are \<^verbatim>\<open>uint64_t\<close>, \<^verbatim>\<open>participants\<close> is
  the set of shard indices of the spec (a finite set of \<^verbatim>\<open>int\<close>, iterated in ascending
  order), \<^verbatim>\<open>retries\<close> is the counter of the loop of \<^verbatim>\<open>Commit\<close>. The field \<open>calls\<close> is
  not a member: it is the record of the calls made so far.
\<close>

record Client =
  client_id :: "64 word"
  t_id :: "64 word"
  nshards :: int
  participants :: "int fset"
  retries :: int
  calls :: "event list"

subsection \<open>Begin, Get, Put\<close>

definition Begin :: "Client \<Rightarrow> Client" where
  "Begin s = s\<lparr>t_id := t_id s + 1, participants := {||}\<rparr>"

text \<open>
  \<^verbatim>\<open>key_to_shard\<close> is defined outside the sources and is a parameter. The value and the
  reply code that a promise resolves to are the parameters \<open>val\<close> and \<open>rep\<close> of
  \<open>Get\<close>, and \<open>rep\<close> of \<open>Put\<close>.
\<close>

definition add_participant :: "int \<Rightarrow> Client \<Rightarrow> Client" where
  "add_participant i s =
     (if i |\<notin>| participants s
      then s\<lparr>participants := finsert i (participants s),
             calls := calls s @ [Send i (Begin_req (t_id s))]\<rparr>
      else s)"

definition Get :: "(string \<Rightarrow> int \<Rightarrow> int) \<Rightarrow> string \<Rightarrow> string \<Rightarrow> reply \<Rightarrow> Client
    \<Rightarrow> (reply \<times> string) \<times> Client" where
  "Get key_to_shard key val rep s =
     (let i = key_to_shard key (nshards s);
          s1 = add_participant i s;
          s2 = s1\<lparr>calls := calls s1 @ [Send i (Get_req key), Await i]\<rparr>
      in ((rep, val), s2))"

definition Put :: "(string \<Rightarrow> int \<Rightarrow> int) \<Rightarrow> string \<Rightarrow> string \<Rightarrow> reply \<Rightarrow> Client
    \<Rightarrow> reply \<times> Client" where
  "Put key_to_shard key val rep s =
     (let i = key_to_shard key (nshards s);
          s1 = add_participant i s;
          s2 = s1\<lparr>calls := calls s1 @ [Send i (Put_req key val), Await i]\<rparr>
      in (rep, s2))"

subsection \<open>Prepare\<close>

text \<open>
  The second loop of \<^verbatim>\<open>Prepare\<close>, over the promises. A promise is the shard it was sent
  to, the reply code and the proposed time it resolves to. The loop either returns from
  \<^verbatim>\<open>Prepare\<close> (\<open>Returned\<close>), or ends with the locals \<^verbatim>\<open>status\<close> and \<^verbatim>\<open>ts\<close>
  (\<open>Fell_through\<close>), or stops the process. The \<^verbatim>\<open>proposed\<close> declared in the body of the
  loop is a new local: it hides the \<^verbatim>\<open>proposed\<close> of the function, which the loop never
  assigns.
\<close>

datatype votes = Returned reply | Fell_through reply "64 word"

fun Prepare_votes :: "(int \<times> reply \<times> 64 word) list \<Rightarrow> reply \<Rightarrow> 64 word \<Rightarrow> event list
    \<Rightarrow> (error + votes) \<times> event list" where
  "Prepare_votes [] status ts cs = (Inr (Fell_through status ts), cs)"
| "Prepare_votes ((p, r, proposed) # promises) status ts cs =
     (case r of
        REPLY_OK \<Rightarrow> Prepare_votes promises status ts (cs @ [Await p])
      | REPLY_FAIL \<Rightarrow> (Inr (Returned REPLY_FAIL), cs @ [Await p])
      | REPLY_RETRY \<Rightarrow>
          Prepare_votes promises REPLY_RETRY (if ts < proposed then proposed else ts)
            (cs @ [Await p])
      | REPLY_TIMEOUT \<Rightarrow> Prepare_votes promises REPLY_RETRY ts (cs @ [Await p])
      | REPLY_OTHER n \<Rightarrow> (Inl Not_implemented, cs @ [Await p]))"

text \<open>
  \<^verbatim>\<open>Prepare(Timestamp &timestamp)\<close>. The parameters \<open>ts0\<close>, \<open>now\<close> and \<open>vote\<close> are what
  the function reads from outside: the content of the local \<^verbatim>\<open>ts\<close>, which is declared
  without an initial value; the reading of \<^verbatim>\<open>timeServer.GetTime()\<close>, taken only when the
  status is \<^verbatim>\<open>REPLY_RETRY\<close>; and, for each shard, the reply code and the time that its
  promise resolves to. The result is the returned code or the fatal exit, the
  in/out argument \<^verbatim>\<open>timestamp\<close>, and the client.
\<close>

definition Prepare :: "64 word \<Rightarrow> 64 word \<Rightarrow> (int \<Rightarrow> reply \<times> 64 word) \<Rightarrow> Timestamp \<Rightarrow> Client
    \<Rightarrow> (error + reply) \<times> Timestamp \<times> Client" where
  "Prepare ts0 now vote timestamp s =
     (let proposed = (0 :: 64 word) in
      if \<not> 0 < fcard (participants s) then (Inl Assertion_failed, timestamp, s)
      else
        let (promises, cs) =
              fold (\<lambda>p (promises, cs).
                      (promises @ [(p, vote p)], cs @ [Send p (Prepare_req timestamp)]))
                (sorted_list_of_fset (participants s)) ([], calls s)
        in case Prepare_votes promises REPLY_OK ts0 cs of
             (Inl e, cs') \<Rightarrow> (Inl e, timestamp, s\<lparr>calls := cs'\<rparr>)
           | (Inr (Returned r), cs') \<Rightarrow> (Inr r, timestamp, s\<lparr>calls := cs'\<rparr>)
           | (Inr (Fell_through status ts), cs') \<Rightarrow>
               if status = REPLY_RETRY
               then (Inr status,
                     (if proposed < now then setTimestamp now timestamp
                      else setTimestamp proposed timestamp),
                     s\<lparr>calls := cs'\<rparr>)
               else (Inr status, timestamp, s\<lparr>calls := cs'\<rparr>))"

subsection \<open>Abort\<close>

definition Abort :: "Client \<Rightarrow> Client" where
  "Abort s =
     (let (promises, cs) =
            fold (\<lambda>p (promises, cs). (promises @ [p], cs @ [Send p Abort_req]))
              (sorted_list_of_fset (participants s)) ([], calls s)
      in s\<lparr>calls := fold (\<lambda>p cs. cs @ [Await p]) promises cs\<rparr>)"

subsection \<open>Commit\<close>

text \<open>
  What \<^verbatim>\<open>Commit\<close> reads from outside: the constant \<^verbatim>\<open>COMMIT_RETRIES\<close> (a macro of a header
  that is not part of the sources), the successive readings of the clock, the votes of
  each shard in each round of \<^verbatim>\<open>Prepare\<close>, and the contents of the locals that are
  declared without an initial value (\<^verbatim>\<open>status\<close> in \<^verbatim>\<open>Commit\<close>, \<^verbatim>\<open>ts\<close> in each call of
  \<^verbatim>\<open>Prepare\<close>). Round \<open>k\<close> is the call of \<^verbatim>\<open>Prepare\<close> made with \<^verbatim>\<open>retries\<close> equal to
  \<open>k\<close>; reading \<open>0\<close> of the clock stamps the transaction and reading \<open>k + 1\<close> is the
  one round \<open>k\<close> takes.
\<close>

record env =
  COMMIT_RETRIES :: int
  GetTime :: "nat \<Rightarrow> 64 word"
  prepare_vote :: "nat \<Rightarrow> int \<Rightarrow> reply \<times> 64 word"
  status0 :: reply
  ts0_of :: "nat \<Rightarrow> 64 word"

definition Prepare_round :: "env \<Rightarrow> Timestamp \<Rightarrow> Client \<Rightarrow> (error + reply) \<times> Timestamp \<times> Client" where
  "Prepare_round e timestamp s =
     (let k = nat (retries s)
      in Prepare (ts0_of e k) (GetTime e (k + 1)) (prepare_vote e k) timestamp s)"

text \<open>
  The \<^verbatim>\<open>for\<close> loop of \<^verbatim>\<open>Commit\<close>, entered at its test with the current values of
  \<^verbatim>\<open>status\<close>, \<^verbatim>\<open>timestamp\<close> and the member \<^verbatim>\<open>retries\<close>.
\<close>

function Commit_loop :: "env \<Rightarrow> reply \<Rightarrow> Timestamp \<Rightarrow> Client
    \<Rightarrow> (error + reply) \<times> Timestamp \<times> Client" where
  "Commit_loop e status timestamp s =
     (if retries s < COMMIT_RETRIES e then
        (case Prepare_round e timestamp s of
           (Inl err, timestamp', s') \<Rightarrow> (Inl err, timestamp', s')
         | (Inr status', timestamp', s') \<Rightarrow>
             if status' = REPLY_RETRY
             then Commit_loop e status' timestamp' (s'\<lparr>retries := retries s' + 1\<rparr>)
             else (Inr status', timestamp', s'))
      else (Inr status, timestamp, s))"
  by pat_completeness auto
termination
proof (relation "measure (\<lambda>(e, status, timestamp, s). nat (COMMIT_RETRIES e - retries s))")
  show "wf (measure (\<lambda>(e, status, timestamp, s). nat (COMMIT_RETRIES e - retries s)))"
    by simp
next
  fix e :: env and status b :: reply and timestamp xa :: Timestamp and s ya :: Client
    and x :: "error + reply" and y :: "Timestamp \<times> Client"
  assume lt: "retries s < COMMIT_RETRIES e"
    and x: "(x, y) = Prepare_round e timestamp s" and y: "(xa, ya) = y"
  have "retries (snd (snd (Prepare_round e timestamp s))) = retries s"
    by (simp add: Prepare_round_def Prepare_def Let_def
        split: prod.splits sum.splits votes.splits)
  with x [symmetric] y [symmetric] have "retries ya = retries s"
    by simp
  with lt show "((e, b, xa, ya\<lparr>retries := retries ya + 1\<rparr>), e, status, timestamp, s)
      \<in> measure (\<lambda>(e, status, timestamp, s). nat (COMMIT_RETRIES e - retries s))"
    by simp
qed

declare Commit_loop.simps [simp del]

definition Commit :: "env \<Rightarrow> Client \<Rightarrow> (error + bool) \<times> Client" where
  "Commit e s =
     (let timestamp = \<lparr>getTimestamp = GetTime e 0, getID = client_id s\<rparr>
      in case Commit_loop e (status0 e) timestamp (s\<lparr>retries := 0\<rparr>) of
           (Inl err, timestamp', s') \<Rightarrow> (Inl err, s')
         | (Inr status, timestamp', s') \<Rightarrow>
             if status = REPLY_OK
             then (Inr True,
                   s'\<lparr>calls := fold (\<lambda>p cs. cs @ [Send p (Commit_req 0)])
                                 (sorted_list_of_fset (participants s')) (calls s')\<rparr>)
             else (Inr False, Abort s'))"

subsection \<open>Inputs\<close>

text \<open>
  The reply codes of the protocol: the four codes that the \<^verbatim>\<open>switch\<close> of \<^verbatim>\<open>Prepare\<close>
  names.
\<close>

definition protocol_reply :: "reply \<Rightarrow> bool" where
  "protocol_reply r = (case r of REPLY_OTHER n \<Rightarrow> False | _ \<Rightarrow> True)"

text \<open>
  A client that has touched the shards 0 and 2 of three, and the promises of a round of
  \<^verbatim>\<open>Prepare\<close> given as an association list from shards to reply code and proposed time
  (a shard that is not listed times out).
\<close>

definition client02 :: Client where
  "client02 = \<lparr>client_id = 7, t_id = 70001, nshards = 3, participants = {|0, 2|},
               retries = 0, calls = []\<rparr>"

definition votes_of :: "(int \<times> reply \<times> 64 word) list \<Rightarrow> int \<Rightarrow> reply \<times> 64 word" where
  "votes_of al p = (case map_of al p of Some v \<Rightarrow> v | None \<Rightarrow> (REPLY_TIMEOUT, 0))"


subsection \<open>Observations\<close>

text \<open>
  The calls that a member function has added to the record of calls, the number of
  \<^verbatim>\<open>Prepare\<close> requests among them that went to a given shard, and the calls of one
  round of \<^verbatim>\<open>Prepare\<close> that got as far as waiting for \<open>n\<close> promises.
\<close>

definition new_calls :: "Client \<Rightarrow> Client \<Rightarrow> event list" where
  "new_calls s s' = drop (length (calls s)) (calls s')"

fun is_Prepare_to :: "int \<Rightarrow> event \<Rightarrow> bool" where
  "is_Prepare_to p (Send q (Prepare_req t)) = (q = p)"
| "is_Prepare_to p ev = False"

definition prepare_attempts :: "int \<Rightarrow> event list \<Rightarrow> nat" where
  "prepare_attempts p cs = length (filter (is_Prepare_to p) cs)"

text \<open>
  A round of votes in which no participant answers outside
  \<^verbatim>\<open>REPLY_OK\<close>, \<^verbatim>\<open>REPLY_RETRY\<close>, \<^verbatim>\<open>REPLY_TIMEOUT\<close> and at least one answers
  \<^verbatim>\<open>REPLY_RETRY\<close> or \<^verbatim>\<open>REPLY_TIMEOUT\<close>; and the round that ended the loop of
  \<^verbatim>\<open>Commit\<close>, read off the member \<^verbatim>\<open>retries\<close>: a \<^verbatim>\<open>break\<close> leaves it at the index
  of the round, running out of rounds leaves it at \<^verbatim>\<open>COMMIT_RETRIES\<close>, one past the
  last round.
\<close>

definition retry_round :: "env \<Rightarrow> int fset \<Rightarrow> nat \<Rightarrow> bool" where
  "retry_round e P k \<longleftrightarrow>
     (\<forall>p |\<in>| P. fst (prepare_vote e k p) \<in> {REPLY_OK, REPLY_RETRY, REPLY_TIMEOUT}) \<and>
     (\<exists>p |\<in>| P. fst (prepare_vote e k p) \<in> {REPLY_RETRY, REPLY_TIMEOUT})"

definition terminating_round :: "env \<Rightarrow> Client \<Rightarrow> nat" where
  "terminating_round e s' = nat (min (retries s') (COMMIT_RETRIES e - 1))"

definition round_calls :: "Timestamp \<Rightarrow> int fset \<Rightarrow> nat \<Rightarrow> event list" where
  "round_calls t P n =
     (if P = {||} then []
      else map (\<lambda>p. Send p (Prepare_req t)) (sorted_list_of_fset P)
           @ map Await (take n (sorted_list_of_fset P)))"

text \<open>
  The timestamp that round \<open>k\<close> of \<^verbatim>\<open>Commit\<close> sends (the clock reading number \<open>k\<close>
  with the identifier of the client), and the calls of a round of \<^verbatim>\<open>Prepare\<close> that
  returned at the promise of shard \<open>p\<close>: a request to every participant, then a wait
  for the promises of the participants up to \<open>p\<close> and for no other.
\<close>

definition round_timestamp :: "env \<Rightarrow> Client \<Rightarrow> nat \<Rightarrow> Timestamp" where
  "round_timestamp e s k = \<lparr>getTimestamp = GetTime e k, getID = client_id s\<rparr>"

definition failed_round_calls :: "Timestamp \<Rightarrow> int fset \<Rightarrow> int \<Rightarrow> event list" where
  "failed_round_calls t P p =
     map (\<lambda>q. Send q (Prepare_req t)) (sorted_list_of_fset P)
     @ map Await (filter (\<lambda>q. q \<le> p) (sorted_list_of_fset P))"

text \<open>
  The calls of the last loop of \<^verbatim>\<open>Commit\<close> and of the two loops of \<^verbatim>\<open>Abort\<close>.
\<close>

definition commit_calls :: "int fset \<Rightarrow> event list" where
  "commit_calls P = map (\<lambda>p. Send p (Commit_req 0)) (sorted_list_of_fset P)"

definition abort_calls :: "int fset \<Rightarrow> event list" where
  "abort_calls P = map (\<lambda>p. Send p Abort_req) (sorted_list_of_fset P)
                   @ map Await (sorted_list_of_fset P)"

text \<open>
  An environment for \<^verbatim>\<open>Commit\<close> given by the bound on the rounds and the votes of the
  first rounds (in later rounds every shard times out), and a client that has touched
  no shard.
\<close>

definition env_rounds :: "int \<Rightarrow> (int \<times> reply \<times> 64 word) list list \<Rightarrow> env" where
  "env_rounds n rounds =
     \<lparr>COMMIT_RETRIES = n,
      GetTime = (\<lambda>k. 80 + of_nat k),
      prepare_vote = (\<lambda>k. votes_of (if k < length rounds then rounds ! k else [])),
      status0 = REPLY_OK,
      ts0_of = (\<lambda>k. 0)\<rparr>"

definition client_idle :: Client where
  "client_idle = \<lparr>client_id = 7, t_id = 70001, nshards = 3, participants = {||},
                  retries = 0, calls = []\<rparr>"

text \<open>
  Two runs of three rounds at most: shard 0 asks for a retry in round 0, and in round 1
  either both shards accept, or shard 0 rejects while the promise of shard 2 holds a
  code outside the protocol.
\<close>

definition env_retry_ok :: env where
  "env_retry_ok = env_rounds 3 [[(0, REPLY_RETRY, 100), (2, REPLY_OK, 0)],
                                [(0, REPLY_OK, 0), (2, REPLY_OK, 0)]]"

definition env_retry_fail :: env where
  "env_retry_fail = env_rounds 3 [[(0, REPLY_RETRY, 100), (2, REPLY_OK, 0)],
                                  [(0, REPLY_FAIL, 0), (2, REPLY_OTHER 9, 0)]]"

subsection \<open>A transaction as a sequence of calls\<close>

text \<open>
  The calls of \<^verbatim>\<open>Get\<close> and \<^verbatim>\<open>Put\<close> that an application makes after \<^verbatim>\<open>Begin\<close>, each
  with what its promise resolves to, and the client after them.
\<close>

datatype op = Get_op string string reply | Put_op string string reply

fun op_key :: "op \<Rightarrow> string" where
  "op_key (Get_op key val rep) = key"
| "op_key (Put_op key val rep) = key"

fun run_op :: "(string \<Rightarrow> int \<Rightarrow> int) \<Rightarrow> op \<Rightarrow> Client \<Rightarrow> Client" where
  "run_op key_to_shard (Get_op key val rep) s = snd (Get key_to_shard key val rep s)"
| "run_op key_to_shard (Put_op key val rep) s = snd (Put key_to_shard key val rep s)"

definition run_ops :: "(string \<Rightarrow> int \<Rightarrow> int) \<Rightarrow> op list \<Rightarrow> Client \<Rightarrow> Client" where
  "run_ops key_to_shard ops s = fold (run_op key_to_shard) ops s"

text \<open>
  The shards to which the calls in a record of calls sent a \<^verbatim>\<open>Get\<close> or a \<^verbatim>\<open>Put\<close>.
\<close>

fun is_data_call :: "event \<Rightarrow> bool" where
  "is_data_call (Send p (Get_req key)) = True"
| "is_data_call (Send p (Put_req key val)) = True"
| "is_data_call ev = False"

definition data_shards :: "event list \<Rightarrow> int set" where
  "data_shards cs = shard_of ` set (filter is_data_call cs)"

text \<open>
  Three shards, a router that sends a key to the shard of its length modulo the number of
  shards, a client whose last transaction touched shard 1, and the client after a new
  transaction that reads and writes keys of the shards 0 and 2.
\<close>

definition by_length :: "string \<Rightarrow> int \<Rightarrow> int" where
  "by_length key n = int (length key) mod n"

definition client1 :: Client where
  "client1 = \<lparr>client_id = 7, t_id = 70000, nshards = 3, participants = {|1|},
              retries = 0, calls = []\<rparr>"

definition scenario_A :: Client where
  "scenario_A = run_ops by_length
     [Get_op ''abc'' ''x'' REPLY_OK, Put_op ''ab'' ''y'' REPLY_OK, Get_op ''def'' ''z'' REPLY_TIMEOUT]
     (Begin client1)"

section \<open>Properties\<close>

subsection \<open>The loops as list functions\<close>

lemma fold_snoc: "fold (\<lambda>p cs. cs @ [g p]) ps cs = cs @ map g ps"
  by (induction ps arbitrary: cs) simp_all

lemma fold_snoc2:
  "fold (\<lambda>p (promises, cs). (promises @ [f p], cs @ [g p])) ps (qs, cs)
     = (qs @ map f ps, cs @ map g ps)"
  by (induction ps arbitrary: qs cs) simp_all

lemma fcard_pos: "0 < fcard A \<longleftrightarrow> A \<noteq> {||}"
  by (simp add: zero_less_iff_neq_zero fcard_0_eq)

lemma Prepare_eq:
  "Prepare ts0 now vote timestamp s =
     (if participants s = {||} then (Inl Assertion_failed, timestamp, s)
      else case Prepare_votes (map (\<lambda>p. (p, vote p)) (sorted_list_of_fset (participants s)))
                  REPLY_OK ts0
                  (calls s @ map (\<lambda>p. Send p (Prepare_req timestamp))
                                 (sorted_list_of_fset (participants s))) of
             (Inl e, cs') \<Rightarrow> (Inl e, timestamp, s\<lparr>calls := cs'\<rparr>)
           | (Inr (Returned r), cs') \<Rightarrow> (Inr r, timestamp, s\<lparr>calls := cs'\<rparr>)
           | (Inr (Fell_through status ts), cs') \<Rightarrow>
               if status = REPLY_RETRY
               then (Inr status, setTimestamp now timestamp, s\<lparr>calls := cs'\<rparr>)
               else (Inr status, timestamp, s\<lparr>calls := cs'\<rparr>))"
proof -
  have "setTimestamp 0 timestamp = setTimestamp now timestamp" if "\<not> 0 < now"
    using that by (simp add: word_gt_0)
  then show ?thesis  
    by (auto simp add: Prepare_def fold_snoc2 fcard_pos split: prod.splits sum.splits votes.splits)
qed

lemma Abort_eq:
  "Abort s = s\<lparr>calls := calls s @ map (\<lambda>p. Send p Abort_req) (sorted_list_of_fset (participants s))
                        @ map Await (sorted_list_of_fset (participants s))\<rparr>"
  by (simp add: Abort_def fold_snoc2 [where f = "\<lambda>p. p", simplified] fold_snoc)

subsection \<open>The votes of a round\<close>

lemma Prepare_votes_calls:
  "\<exists>n \<le> length promises. snd (Prepare_votes promises status ts cs) = cs @ map (\<lambda>x. Await (fst x)) (take n promises)"
proof (induction promises arbitrary: status ts cs)
  case Nil
  show ?case by simp
next
  case (Cons a promises)
  obtain p r t where a: "a = (p, r, t)" by (cases a)
  have step: "\<exists>n \<le> length (a # promises). snd (Prepare_votes promises st ts' (cs @ [Await p])) = cs @ map (\<lambda>x. Await (fst x)) (take n (a # promises))" for st ts'
  proof -
    from Cons.IH [of st ts' "cs @ [Await p]"] obtain n where
      "n \<le> length promises" "snd (Prepare_votes promises st ts' (cs @ [Await p])) = (cs @ [Await p]) @ map (\<lambda>x. Await (fst x)) (take n promises)"
      by blast
    then show ?thesis by (intro exI [of _ "Suc n"]) (simp add: a)
  qed
  have stop: "\<exists>n \<le> length (a # promises). cs @ [Await p] = cs @ map (\<lambda>x. Await (fst x)) (take n (a # promises))"
    by (intro exI [of _ "Suc 0"]) (simp add: a)
  show ?case
    using step stop unfolding a by (cases r) simp_all
qed

lemma Prepare_votes_fell_through_iff:
  "(\<exists>t. fst (Prepare_votes promises status ts cs) = Inr (Fell_through st t)) \<longleftrightarrow>
     (\<forall>x \<in> set promises. fst (snd x) \<in> {REPLY_OK, REPLY_RETRY, REPLY_TIMEOUT}) \<and>
     st = (if \<exists>x \<in> set promises. fst (snd x) \<in> {REPLY_RETRY, REPLY_TIMEOUT}
           then REPLY_RETRY else status)"
proof (induction promises arbitrary: status ts cs)
  case Nil
  show ?case by auto
next
  case (Cons a promises)
  obtain p r t where a: "a = (p, r, t)" by (cases a)
  show ?case
    unfolding a by (cases r) (simp_all add: Cons.IH)
qed

lemma Prepare_votes_returned:
  "fst (Prepare_votes promises status ts cs) = Inr (Returned r) \<Longrightarrow>
     r = REPLY_FAIL \<and> (\<exists>x \<in> set promises. fst (snd x) = REPLY_FAIL)"
proof (induction promises arbitrary: status ts cs)
  case Nil
  then show ?case by simp
next
  case (Cons a promises)
  obtain p r' t where a: "a = (p, r', t)" by (cases a)
  show ?case
    using Cons.prems Cons.IH unfolding a by (cases r') auto
qed

lemma Prepare_votes_error:
  "fst (Prepare_votes promises status ts cs) = Inl err \<Longrightarrow>
     err = Not_implemented \<and> (\<exists>x \<in> set promises. \<not> protocol_reply (fst (snd x)))"
proof (induction promises arbitrary: status ts cs)
  case Nil
  then show ?case by simp
next
  case (Cons a promises)
  obtain p r' t where a: "a = (p, r', t)" by (cases a)
  show ?case
    using Cons.prems Cons.IH unfolding a by (cases r') (auto simp: protocol_reply_def)
qed


lemma Prepare_OK_iff:
  "fst (Prepare ts0 now vote timestamp s) = Inr REPLY_OK \<longleftrightarrow>
     participants s \<noteq> {||} \<and> (\<forall>p |\<in>| participants s. fst (vote p) = REPLY_OK)"
proof (cases "participants s = {||}")
  case True
  then show ?thesis by (simp add: Prepare_eq)
next
  case False
  let ?promises = "map (\<lambda>p. (p, vote p)) (sorted_list_of_fset (participants s))"
  let ?cs = "calls s @ map (\<lambda>p. Send p (Prepare_req timestamp)) (sorted_list_of_fset (participants s))"
  have "fst (Prepare ts0 now vote timestamp s) = Inr REPLY_OK \<longleftrightarrow>
      (\<exists>t. fst (Prepare_votes ?promises REPLY_OK ts0 ?cs) = Inr (Fell_through REPLY_OK t))"
    using False Prepare_votes_returned [of ?promises REPLY_OK ts0 ?cs]
    by (auto simp: Prepare_eq split: prod.splits sum.splits votes.splits if_splits)
  also have "\<dots> \<longleftrightarrow> (\<forall>p |\<in>| participants s. fst (vote p) = REPLY_OK)"
  proof -
    have "r \<in> {REPLY_OK, REPLY_RETRY, REPLY_TIMEOUT} \<and> r \<notin> {REPLY_RETRY, REPLY_TIMEOUT}
        \<longleftrightarrow> r = REPLY_OK" for r
      by auto
    then show ?thesis
      unfolding Prepare_votes_fell_through_iff
      by (simp add: image_iff Bex_def Ball_def) blast
  qed
  finally show ?thesis using False by simp
qed

lemma Prepare_RETRY_iff:
  "fst (Prepare ts0 now vote timestamp s) = Inr REPLY_RETRY \<longleftrightarrow>
     (\<forall>p |\<in>| participants s. fst (vote p) \<in> {REPLY_OK, REPLY_RETRY, REPLY_TIMEOUT}) \<and>
     (\<exists>p |\<in>| participants s. fst (vote p) \<in> {REPLY_RETRY, REPLY_TIMEOUT})"
proof (cases "participants s = {||}")
  case True
  then show ?thesis by (simp add: Prepare_eq)
next
  case False
  let ?promises = "map (\<lambda>p. (p, vote p)) (sorted_list_of_fset (participants s))"
  let ?cs = "calls s @ map (\<lambda>p. Send p (Prepare_req timestamp)) (sorted_list_of_fset (participants s))"
  have "fst (Prepare ts0 now vote timestamp s) = Inr REPLY_RETRY \<longleftrightarrow>
      (\<exists>t. fst (Prepare_votes ?promises REPLY_OK ts0 ?cs) = Inr (Fell_through REPLY_RETRY t))"
    using False Prepare_votes_returned [of ?promises REPLY_OK ts0 ?cs]
    by (auto simp: Prepare_eq split: prod.splits sum.splits votes.splits if_splits)
  also have "\<dots> \<longleftrightarrow> (\<forall>p |\<in>| participants s. fst (vote p) \<in> {REPLY_OK, REPLY_RETRY, REPLY_TIMEOUT}) \<and>
     (\<exists>p |\<in>| participants s. fst (vote p) \<in> {REPLY_RETRY, REPLY_TIMEOUT})"
    unfolding Prepare_votes_fell_through_iff
    by (simp add: image_iff Bex_def Ball_def)
  finally show ?thesis .
qed

lemma Prepare_FAIL_only_if:
  assumes "fst (Prepare ts0 now vote timestamp s) = Inr REPLY_FAIL"
  shows "\<exists>p |\<in>| participants s. fst (vote p) = REPLY_FAIL"
proof -
  let ?promises = "map (\<lambda>p. (p, vote p)) (sorted_list_of_fset (participants s))"
  let ?cs = "calls s @ map (\<lambda>p. Send p (Prepare_req timestamp)) (sorted_list_of_fset (participants s))"
  from assms have ne: "participants s \<noteq> {||}"
    by (auto simp: Prepare_eq split: if_splits)
  have "\<not> (\<exists>t. fst (Prepare_votes ?promises REPLY_OK ts0 ?cs) = Inr (Fell_through REPLY_FAIL t))"
    unfolding Prepare_votes_fell_through_iff by (auto split: if_splits)
  with assms ne have "fst (Prepare_votes ?promises REPLY_OK ts0 ?cs) = Inr (Returned REPLY_FAIL)"
    by (auto simp: Prepare_eq split: prod.splits sum.splits votes.splits if_splits)
  from Prepare_votes_returned [OF this] show ?thesis by auto
qed

lemma Prepare_Assertion_failed_iff:
  "fst (Prepare ts0 now vote timestamp s) = Inl Assertion_failed \<longleftrightarrow> participants s = {||}"
proof -
  let ?promises = "map (\<lambda>p. (p, vote p)) (sorted_list_of_fset (participants s))"
  let ?cs = "calls s @ map (\<lambda>p. Send p (Prepare_req timestamp)) (sorted_list_of_fset (participants s))"
  show ?thesis
    using Prepare_votes_error [of ?promises REPLY_OK ts0 ?cs Assertion_failed]
    by (auto simp: Prepare_eq split: prod.splits sum.splits votes.splits if_splits)
qed

lemma Prepare_timestamp:
  "fst (snd (Prepare ts0 now vote timestamp s)) =
     (if fst (Prepare ts0 now vote timestamp s) = Inr REPLY_RETRY
      then setTimestamp now timestamp else timestamp)"
proof -
  let ?promises = "map (\<lambda>p. (p, vote p)) (sorted_list_of_fset (participants s))"
  let ?cs = "calls s @ map (\<lambda>p. Send p (Prepare_req timestamp)) (sorted_list_of_fset (participants s))"
  show ?thesis
    using Prepare_votes_returned [of ?promises REPLY_OK ts0 ?cs REPLY_RETRY]
    by (auto simp: Prepare_eq split: prod.splits sum.splits votes.splits if_splits)
qed

lemma Prepare_state:
  "\<exists>n \<le> fcard (participants s).
     snd (snd (Prepare ts0 now vote timestamp s)) =
       s\<lparr>calls := calls s
            @ (if participants s = {||} then []
               else map (\<lambda>p. Send p (Prepare_req timestamp)) (sorted_list_of_fset (participants s))
                    @ map Await (take n (sorted_list_of_fset (participants s))))\<rparr>"
proof (cases "participants s = {||}")
  case True
  then show ?thesis by (auto simp: Prepare_eq)
next
  case False
  let ?ps = "sorted_list_of_fset (participants s)"
  let ?promises = "map (\<lambda>p. (p, vote p)) ?ps"
  let ?cs = "calls s @ map (\<lambda>p. Send p (Prepare_req timestamp)) ?ps"
  have len: "length ?ps = fcard (participants s)"
    by (simp add: sorted_list_of_fset.rep_eq fcard.rep_eq)
  from Prepare_votes_calls [of ?promises REPLY_OK ts0 ?cs] obtain n where
    n: "n \<le> length ?promises"
    and cs: "snd (Prepare_votes ?promises REPLY_OK ts0 ?cs) = ?cs @ map (\<lambda>x. Await (fst x)) (take n ?promises)"
    by blast
  have "map (\<lambda>x. Await (fst x)) (take n ?promises) = map Await (take n ?ps)"
    by (simp add: take_map comp_def)
  with cs have "snd (snd (Prepare ts0 now vote timestamp s)) = s\<lparr>calls := ?cs @ map Await (take n ?ps)\<rparr>"
    using False by (auto simp: Prepare_eq split: prod.splits sum.splits votes.splits)
  with n len False show ?thesis by (intro exI [of _ n]) simp
qed

subsection \<open>The loop of Commit\<close>

lemma prepare_attempts_append [simp]:
  "prepare_attempts p (xs @ ys) = prepare_attempts p xs + prepare_attempts p ys"
  by (simp add: prepare_attempts_def)

lemma prepare_attempts_Nil [simp]: "prepare_attempts p [] = 0"
  by (simp add: prepare_attempts_def)

lemma prepare_attempts_Await [simp]: "prepare_attempts p (map Await xs) = 0"
  by (induction xs) (simp_all add: prepare_attempts_def)

lemma prepare_attempts_sends_list:
  "distinct xs \<Longrightarrow>
   prepare_attempts p (map (\<lambda>q. Send q (Prepare_req t)) xs) = (if p \<in> set xs then 1 else 0)"
  by (induction xs) (auto simp: prepare_attempts_def)

lemma prepare_attempts_sends:
  "prepare_attempts p (map (\<lambda>q. Send q (Prepare_req t)) (sorted_list_of_fset P))
     = (if p |\<in>| P then 1 else 0)"
  using prepare_attempts_sends_list [of "sorted_list_of_fset P" p t]
  by (simp add: sorted_list_of_fset.rep_eq)

lemma round_calls_shards: "ev \<in> set (round_calls t P n) \<Longrightarrow> shard_of ev |\<in>| P"
  by (auto simp: round_calls_def split: if_splits dest!: in_set_takeD)

lemma round_calls_attempts:
  "prepare_attempts p (round_calls t P n) = (if p |\<in>| P then 1 else 0)"
  by (auto simp: round_calls_def prepare_attempts_sends)

lemma Prepare_round_state:
  "\<exists>n. snd (snd (Prepare_round e t s)) = s\<lparr>calls := calls s @ round_calls t (participants s) n\<rparr>"
proof -
  from Prepare_state [of s "ts0_of e (nat (retries s))" "GetTime e (nat (retries s) + 1)"
      "prepare_vote e (nat (retries s))" t]
  obtain n where "snd (snd (Prepare_round e t s))
      = s\<lparr>calls := calls s @ round_calls t (participants s) n\<rparr>"
    unfolding Prepare_round_def round_calls_def Let_def by blast
  then show ?thesis ..
qed

lemma Prepare_round_RETRY_iff:
  "fst (Prepare_round e t s) = Inr REPLY_RETRY \<longleftrightarrow> retry_round e (participants s) (nat (retries s))"
  by (simp add: Prepare_round_def Let_def Prepare_RETRY_iff retry_round_def)

lemma Prepare_round_OK_iff:
  "fst (Prepare_round e t s) = Inr REPLY_OK \<longleftrightarrow>
     participants s \<noteq> {||} \<and>
     (\<forall>p |\<in>| participants s. fst (prepare_vote e (nat (retries s)) p) = REPLY_OK)"
  by (simp add: Prepare_round_def Let_def Prepare_OK_iff)

lemma Commit_loop_exit:
  "\<not> retries s < COMMIT_RETRIES e \<Longrightarrow> Commit_loop e st t s = (Inr st, t, s)"
  by (subst Commit_loop.simps) simp

lemma Commit_loop_again:
  assumes "retries s < COMMIT_RETRIES e" and "fst (Prepare_round e t s) = Inr REPLY_RETRY"
  shows "Commit_loop e st t s =
           Commit_loop e REPLY_RETRY (fst (snd (Prepare_round e t s)))
             ((snd (snd (Prepare_round e t s)))\<lparr>retries := retries s + 1\<rparr>)"
proof -
  obtain r t1 s1 where p: "Prepare_round e t s = (r, t1, s1)"
    by (cases "Prepare_round e t s")
  from Prepare_round_state [of e t s] p have "retries s1 = retries s" by auto
  with assms p show ?thesis
    by (subst Commit_loop.simps) simp
qed

lemma Commit_loop_break:
  assumes "retries s < COMMIT_RETRIES e" and "fst (Prepare_round e t s) \<noteq> Inr REPLY_RETRY"
  shows "Commit_loop e st t s = Prepare_round e t s"
proof -
  obtain r t1 s1 where p: "Prepare_round e t s = (r, t1, s1)"
    by (cases "Prepare_round e t s")
  with assms show ?thesis
    by (subst Commit_loop.simps) (auto split: sum.splits)
qed


lemma Prepare_round_Assertion_failed_iff:
  "fst (Prepare_round e t s) = Inl Assertion_failed \<longleftrightarrow> participants s = {||}"
  by (simp add: Prepare_round_def Let_def Prepare_Assertion_failed_iff)

lemma Commit_loop_general:
  "nat (COMMIT_RETRIES e - retries s) = n \<Longrightarrow>
   \<exists>k X. snd (snd (Commit_loop e st t s)) = s\<lparr>retries := k, calls := calls s @ X\<rparr> \<and>
         retries s \<le> k \<and>
         (\<forall>ev \<in> set X. shard_of ev |\<in>| participants s) \<and>
         (\<forall>p. prepare_attempts p X \<le> n) \<and>
         (participants s \<noteq> {||} \<longrightarrow> fst (Commit_loop e st t s) \<noteq> Inl Assertion_failed)"
proof (induction n arbitrary: s st t)
  case 0
  then have "Commit_loop e st t s = (Inr st, t, s)"
    by (intro Commit_loop_exit) simp
  then show ?case
    by (intro exI [of _ "retries s"] exI [of _ "[]"]) simp
next
  case (Suc n)
  then have lt: "retries s < COMMIT_RETRIES e" by simp
  obtain m where s1: "snd (snd (Prepare_round e t s))
      = s\<lparr>calls := calls s @ round_calls t (participants s) m\<rparr>"
    using Prepare_round_state by blast
  let ?rc = "round_calls t (participants s) m"
  have rc_shards: "\<forall>ev \<in> set ?rc. shard_of ev |\<in>| participants s"
    using round_calls_shards by blast
  have rc_attempts: "prepare_attempts p ?rc \<le> 1" for p
    by (simp add: round_calls_attempts)
  show ?case
  proof (cases "fst (Prepare_round e t s) = Inr REPLY_RETRY")
    case True
    let ?s1 = "s\<lparr>calls := calls s @ ?rc, retries := retries s + 1\<rparr>"
    have loop: "Commit_loop e st t s
        = Commit_loop e REPLY_RETRY (fst (snd (Prepare_round e t s))) ?s1"
      using Commit_loop_again [OF lt True, of st] by (simp add: s1)
    have "nat (COMMIT_RETRIES e - retries ?s1) = n"
      using Suc.prems by simp
    from Suc.IH [OF this, of REPLY_RETRY "fst (snd (Prepare_round e t s))"]
    obtain k X where
      st: "snd (snd (Commit_loop e REPLY_RETRY (fst (snd (Prepare_round e t s))) ?s1))
            = ?s1\<lparr>retries := k, calls := calls ?s1 @ X\<rparr>"
      and k: "retries ?s1 \<le> k"
      and sh: "\<forall>ev \<in> set X. shard_of ev |\<in>| participants ?s1"
      and at: "\<forall>p. prepare_attempts p X \<le> n"
      and as: "participants ?s1 \<noteq> {||} \<longrightarrow>
          fst (Commit_loop e REPLY_RETRY (fst (snd (Prepare_round e t s))) ?s1) \<noteq> Inl Assertion_failed"
      by blast
    have "snd (snd (Commit_loop e st t s)) = s\<lparr>retries := k, calls := calls s @ (?rc @ X)\<rparr>"
      using st by (simp add: loop)
    moreover have "retries s \<le> k" using k by simp
    moreover have "\<forall>ev \<in> set (?rc @ X). shard_of ev |\<in>| participants s"
      using rc_shards sh by auto
    moreover have "\<forall>p. prepare_attempts p (?rc @ X) \<le> Suc n"
    proof
      fix p
      show "prepare_attempts p (?rc @ X) \<le> Suc n"
        using rc_attempts [of p] at [rule_format, of p] by simp
    qed
    moreover have "participants s \<noteq> {||} \<longrightarrow> fst (Commit_loop e st t s) \<noteq> Inl Assertion_failed"
      using as by (simp add: loop)
    ultimately show ?thesis by blast
  next
    case False
    have loop: "Commit_loop e st t s = Prepare_round e t s"
      using Commit_loop_break [OF lt False] .
    have "snd (snd (Commit_loop e st t s)) = s\<lparr>retries := retries s, calls := calls s @ ?rc\<rparr>"
      by (simp add: loop s1)
    moreover have "\<forall>p. prepare_attempts p ?rc \<le> Suc n"
    proof
      fix p
      show "prepare_attempts p ?rc \<le> Suc n"
        using rc_attempts [of p] by simp
    qed
    moreover have "participants s \<noteq> {||} \<longrightarrow> fst (Commit_loop e st t s) \<noteq> Inl Assertion_failed"
      by (simp add: loop Prepare_round_Assertion_failed_iff)
    ultimately show ?thesis using rc_shards by blast
  qed
qed

lemma Commit_loop_OK_iff:
  "\<lbrakk>nat (COMMIT_RETRIES e - retries s) = n; 0 \<le> retries s; retries s < COMMIT_RETRIES e;
    participants s \<noteq> {||}\<rbrakk> \<Longrightarrow>
   fst (Commit_loop e st t s) = Inr REPLY_OK \<longleftrightarrow>
     (\<forall>p |\<in>| participants s.
        fst (prepare_vote e (terminating_round e (snd (snd (Commit_loop e st t s)))) p) = REPLY_OK)"
proof (induction n arbitrary: s st t)
  case 0
  then show ?case by simp
next
  case (Suc n)
  note lt = \<open>retries s < COMMIT_RETRIES e\<close>
  obtain m where s1: "snd (snd (Prepare_round e t s))
      = s\<lparr>calls := calls s @ round_calls t (participants s) m\<rparr>"
    using Prepare_round_state by blast
  let ?rc = "round_calls t (participants s) m"
  have here: "nat (min (retries s) (COMMIT_RETRIES e - 1)) = nat (retries s)"
    using lt by simp
  show ?case
  proof (cases "fst (Prepare_round e t s) = Inr REPLY_RETRY")
    case False
    have loop: "Commit_loop e st t s = Prepare_round e t s"
      using Commit_loop_break [OF lt False] .
    show ?thesis
      using Suc.prems(4) by (simp add: loop s1 terminating_round_def here Prepare_round_OK_iff)
  next
    case True
    let ?s1 = "s\<lparr>calls := calls s @ ?rc, retries := retries s + 1\<rparr>"
    let ?t1 = "fst (snd (Prepare_round e t s))"
    have loop: "Commit_loop e st t s = Commit_loop e REPLY_RETRY ?t1 ?s1"
      using Commit_loop_again [OF lt True, of st] by (simp add: s1)
    show ?thesis
    proof (cases "retries ?s1 < COMMIT_RETRIES e")
      case True
      have "nat (COMMIT_RETRIES e - retries ?s1) = n" "0 \<le> retries ?s1" "participants ?s1 \<noteq> {||}"
        using Suc.prems by simp_all
      from Suc.IH [OF this(1,2) True this(3), of REPLY_RETRY ?t1] show ?thesis
        by (simp add: loop)
    next
      case False
      then have ex: "Commit_loop e REPLY_RETRY ?t1 ?s1 = (Inr REPLY_RETRY, ?t1, ?s1)"
        by (intro Commit_loop_exit)
      have "nat (min (retries ?s1) (COMMIT_RETRIES e - 1)) = nat (retries s)"
        using False lt by simp
      moreover have "\<not> (\<forall>p |\<in>| participants s. fst (prepare_vote e (nat (retries s)) p) = REPLY_OK)"
        using \<open>fst (Prepare_round e t s) = Inr REPLY_RETRY\<close> Prepare_round_OK_iff [of e t s]
          Suc.prems(4) by auto
      ultimately show ?thesis
        by (simp add: loop ex terminating_round_def)
    qed
  qed
qed

lemma Commit_loop_retry_rounds:
  assumes "retries s = int j" and "int (j + d) \<le> COMMIT_RETRIES e"
    and "\<forall>i. j \<le> i \<and> i < j + d \<longrightarrow> retry_round e (participants s) i"
  shows "\<exists>st' t' X. Commit_loop e st t s
             = Commit_loop e st' t' (s\<lparr>retries := int (j + d), calls := calls s @ X\<rparr>) \<and>
           (\<forall>p. prepare_attempts p X = (if p |\<in>| participants s then d else 0)) \<and>
           (\<forall>ev \<in> set X. shard_of ev |\<in>| participants s) \<and>
           (0 < d \<longrightarrow> st' = REPLY_RETRY)"
  using assms(2,3)
proof (induction d)
  case 0
  have "s\<lparr>retries := int (j + 0), calls := calls s @ []\<rparr> = s"
    using assms(1) by simp
  then show ?case
    by (intro exI [of _ st] exI [of _ t] exI [of _ "[]"]) simp
next
  case (Suc d)
  from Suc obtain st' t' X where
    loop: "Commit_loop e st t s
        = Commit_loop e st' t' (s\<lparr>retries := int (j + d), calls := calls s @ X\<rparr>)"
    and at: "\<forall>p. prepare_attempts p X = (if p |\<in>| participants s then d else 0)"
    and sh: "\<forall>ev \<in> set X. shard_of ev |\<in>| participants s"
    by force
  let ?sk = "s\<lparr>retries := int (j + d), calls := calls s @ X\<rparr>"
  have lt: "retries ?sk < COMMIT_RETRIES e"
    using Suc.prems(1) by simp
  have "retry_round e (participants s) (j + d)"
    using Suc.prems(2) by simp
  then have "retry_round e (participants ?sk) (nat (retries ?sk))"
    by (simp del: of_nat_add)
  then have retry: "fst (Prepare_round e t' ?sk) = Inr REPLY_RETRY"
    by (simp only: Prepare_round_RETRY_iff)
  obtain m where s1: "snd (snd (Prepare_round e t' ?sk))
      = ?sk\<lparr>calls := calls ?sk @ round_calls t' (participants ?sk) m\<rparr>"
    using Prepare_round_state by blast
  let ?rc = "round_calls t' (participants s) m"
  have "(snd (snd (Prepare_round e t' ?sk)))\<lparr>retries := retries ?sk + 1\<rparr>
      = s\<lparr>retries := int (j + Suc d), calls := calls s @ (X @ ?rc)\<rparr>"
    unfolding s1 by simp
  with Commit_loop_again [OF lt retry, of st']
  have "Commit_loop e st' t' ?sk
      = Commit_loop e REPLY_RETRY (fst (snd (Prepare_round e t' ?sk)))
          (s\<lparr>retries := int (j + Suc d), calls := calls s @ (X @ ?rc)\<rparr>)"
    by (simp only:)
  moreover have "\<forall>p. prepare_attempts p (X @ ?rc) = (if p |\<in>| participants s then Suc d else 0)"
    using at by (simp add: round_calls_attempts)
  moreover have "\<forall>ev \<in> set (X @ ?rc). shard_of ev |\<in>| participants s"
    using sh round_calls_shards by auto
  ultimately show ?case
    using loop by (intro exI [of _ REPLY_RETRY] exI [of _ "fst (snd (Prepare_round e t' ?sk))"]
        exI [of _ "X @ ?rc"]) simp
qed

subsection \<open>Commit and Abort\<close>

lemma new_calls_append [simp]: "new_calls s (s'\<lparr>calls := calls s @ X\<rparr>) = X"
  by (simp add: new_calls_def)

lemma prepare_attempts_commit_calls [simp]: "prepare_attempts p (commit_calls P) = 0"
proof -
  have "prepare_attempts p (map (\<lambda>p. Send p (Commit_req 0)) xs) = 0" for xs
    by (induction xs) (simp_all add: prepare_attempts_def)
  then show ?thesis by (simp add: commit_calls_def)
qed

lemma prepare_attempts_abort_calls [simp]: "prepare_attempts p (abort_calls P) = 0"
proof -
  have "prepare_attempts p (map (\<lambda>p. Send p Abort_req) xs) = 0" for xs
    by (induction xs) (simp_all add: prepare_attempts_def)
  then show ?thesis by (simp add: abort_calls_def)
qed

lemma commit_calls_shards: "ev \<in> set (commit_calls P) \<Longrightarrow> shard_of ev |\<in>| P"
  by (auto simp: commit_calls_def)

lemma abort_calls_shards: "ev \<in> set (abort_calls P) \<Longrightarrow> shard_of ev |\<in>| P"
  by (auto simp: abort_calls_def)

lemma Abort_calls: "Abort s = s\<lparr>calls := calls s @ abort_calls (participants s)\<rparr>"
  by (simp add: Abort_eq abort_calls_def)

text \<open>\<^verbatim>\<open>Commit\<close> in terms of the state in which its loop ends.\<close>

lemma Commit_OK:
  assumes "Commit_loop e (status0 e) \<lparr>getTimestamp = GetTime e 0, getID = client_id s\<rparr>
             (s\<lparr>retries := 0\<rparr>) = (Inr REPLY_OK, t', s\<lparr>retries := k, calls := calls s @ X\<rparr>)"
  shows "Commit e s = (Inr True, s\<lparr>retries := k, calls := calls s @ X @ commit_calls (participants s)\<rparr>)"
  using assms by (simp add: Commit_def fold_snoc commit_calls_def)

lemma Commit_not_OK:
  assumes "Commit_loop e (status0 e) \<lparr>getTimestamp = GetTime e 0, getID = client_id s\<rparr>
             (s\<lparr>retries := 0\<rparr>) = (Inr st, t', s\<lparr>retries := k, calls := calls s @ X\<rparr>)"
    and "st \<noteq> REPLY_OK"
  shows "Commit e s = (Inr False, s\<lparr>retries := k, calls := calls s @ X @ abort_calls (participants s)\<rparr>)"
  using assms by (simp add: Commit_def Abort_calls)

lemma Commit_fatal:
  assumes "Commit_loop e (status0 e) \<lparr>getTimestamp = GetTime e 0, getID = client_id s\<rparr>
             (s\<lparr>retries := 0\<rparr>) = (Inl err, t', s')"
  shows "Commit e s = (Inl err, s')"
  using assms by (simp add: Commit_def)

lemma Commit_state:
  "\<exists>k X. snd (Commit e s) = s\<lparr>retries := k, calls := calls s @ X\<rparr> \<and>
     0 \<le> k \<and>
     (\<forall>ev \<in> set X. shard_of ev |\<in>| participants s) \<and>
     (\<forall>p. prepare_attempts p X \<le> nat (COMMIT_RETRIES e)) \<and>
     (participants s \<noteq> {||} \<longrightarrow> fst (Commit e s) \<noteq> Inl Assertion_failed)"
proof -
  let ?t = "\<lparr>getTimestamp = GetTime e 0, getID = client_id s\<rparr>"
  let ?s0 = "s\<lparr>retries := 0\<rparr>"
  let ?L = "Commit_loop e (status0 e) ?t ?s0"
  have "nat (COMMIT_RETRIES e - retries ?s0) = nat (COMMIT_RETRIES e)" by simp
  from Commit_loop_general [OF this, of "status0 e" ?t]
  obtain k X where st: "snd (snd ?L) = ?s0\<lparr>retries := k, calls := calls ?s0 @ X\<rparr>"
    and k: "retries ?s0 \<le> k"
    and sh: "\<forall>ev \<in> set X. shard_of ev |\<in>| participants ?s0"
    and at: "\<forall>p. prepare_attempts p X \<le> nat (COMMIT_RETRIES e)"
    and as: "participants ?s0 \<noteq> {||} \<longrightarrow> fst ?L \<noteq> Inl Assertion_failed"
    by blast
  obtain r t' where L: "?L = (r, t', s\<lparr>retries := k, calls := calls s @ X\<rparr>)"
    using st by (cases ?L) simp
  show ?thesis
  proof (cases r)
    case (Inl err)
    with L have "Commit e s = (Inl err, s\<lparr>retries := k, calls := calls s @ X\<rparr>)"
      by (intro Commit_fatal) simp
    with k sh at as L Inl show ?thesis by auto
  next
    case (Inr status)
    show ?thesis
    proof (cases "status = REPLY_OK")
      case True
      with L Inr have "Commit e s
          = (Inr True, s\<lparr>retries := k, calls := calls s @ X @ commit_calls (participants s)\<rparr>)"
        by (intro Commit_OK) simp
      moreover have "\<forall>ev \<in> set (X @ commit_calls (participants s)). shard_of ev |\<in>| participants s"
        using sh commit_calls_shards by auto
      moreover have "\<forall>p. prepare_attempts p (X @ commit_calls (participants s)) \<le> nat (COMMIT_RETRIES e)"
        using at by simp
      ultimately show ?thesis using k by (intro exI [of _ k] exI [of _ "X @ commit_calls (participants s)"]) simp
    next
      case False
      with L Inr have "Commit e s
          = (Inr False, s\<lparr>retries := k, calls := calls s @ X @ abort_calls (participants s)\<rparr>)"
        by (intro Commit_not_OK) simp_all
      moreover have "\<forall>ev \<in> set (X @ abort_calls (participants s)). shard_of ev |\<in>| participants s"
        using sh abort_calls_shards by auto
      moreover have "\<forall>p. prepare_attempts p (X @ abort_calls (participants s)) \<le> nat (COMMIT_RETRIES e)"
        using at by simp
      ultimately show ?thesis using k by (intro exI [of _ k] exI [of _ "X @ abort_calls (participants s)"]) simp
    qed
  qed
qed

lemma Commit_loop_rounds:
  "\<lbrakk>nat (COMMIT_RETRIES e - retries s) = n; 0 \<le> retries s; retries s < COMMIT_RETRIES e;
    p |\<in>| participants s\<rbrakk> \<Longrightarrow>
   prepare_attempts p (new_calls s (snd (snd (Commit_loop e st t s)))) + nat (retries s)
     = terminating_round e (snd (snd (Commit_loop e st t s))) + 1"
proof (induction n arbitrary: s st t)
  case 0
  then show ?case by simp
next
  case (Suc n)
  note lt = \<open>retries s < COMMIT_RETRIES e\<close>
  obtain m where s1: "snd (snd (Prepare_round e t s))
      = s\<lparr>calls := calls s @ round_calls t (participants s) m\<rparr>"
    using Prepare_round_state by blast
  let ?rc = "round_calls t (participants s) m"
  have rc: "prepare_attempts p ?rc = 1"
    using Suc.prems(4) by (simp add: round_calls_attempts)
  have here: "nat (min (retries s) (COMMIT_RETRIES e - 1)) = nat (retries s)"
    using lt by simp
  show ?case
  proof (cases "fst (Prepare_round e t s) = Inr REPLY_RETRY")
    case False
    have loop: "Commit_loop e st t s = Prepare_round e t s"
      using Commit_loop_break [OF lt False] .
    show ?thesis
      by (simp add: loop s1 rc terminating_round_def here)
  next
    case True
    let ?s1 = "s\<lparr>calls := calls s @ ?rc, retries := retries s + 1\<rparr>"
    let ?t1 = "fst (snd (Prepare_round e t s))"
    have loop: "Commit_loop e st t s = Commit_loop e REPLY_RETRY ?t1 ?s1"
      using Commit_loop_again [OF lt True, of st] by (simp add: s1)
    from Commit_loop_general [where e = e and s = ?s1 and st = REPLY_RETRY and t = ?t1, OF refl] obtain k X where
      R: "snd (snd (Commit_loop e REPLY_RETRY ?t1 ?s1)) = ?s1\<lparr>retries := k, calls := calls ?s1 @ X\<rparr>"
      by blast
    have new: "new_calls s (snd (snd (Commit_loop e REPLY_RETRY ?t1 ?s1)))
        = ?rc @ new_calls ?s1 (snd (snd (Commit_loop e REPLY_RETRY ?t1 ?s1)))"
      unfolding R by (simp add: new_calls_def)
    show ?thesis
    proof (cases "retries ?s1 < COMMIT_RETRIES e")
      case True
      have "nat (COMMIT_RETRIES e - retries ?s1) = n" "0 \<le> retries ?s1" "p |\<in>| participants ?s1"
        using Suc.prems by simp_all
      from Suc.IH [OF this(1,2) True this(3), of REPLY_RETRY ?t1] Suc.prems(2) show ?thesis
        unfolding loop new by (simp add: rc nat_add_distrib)
    next
      case False
      then have ex: "Commit_loop e REPLY_RETRY ?t1 ?s1 = (Inr REPLY_RETRY, ?t1, ?s1)"
        by (intro Commit_loop_exit)
      have "nat (min (retries ?s1) (COMMIT_RETRIES e - 1)) = nat (retries s)"
        using False lt by simp
      then show ?thesis
        by (simp add: loop ex terminating_round_def rc new_calls_def)
    qed
  qed
qed

lemma Commit_summary:
  "\<exists>k X Y. snd (snd (Commit_loop e (status0 e) \<lparr>getTimestamp = GetTime e 0, getID = client_id s\<rparr>
                       (s\<lparr>retries := 0\<rparr>)))
              = s\<lparr>retries := k, calls := calls s @ X\<rparr> \<and>
           snd (Commit e s) = s\<lparr>retries := k, calls := calls s @ X @ Y\<rparr> \<and>
           (\<forall>p. prepare_attempts p Y = 0) \<and>
           (fst (Commit e s) = Inr True \<longleftrightarrow>
              fst (Commit_loop e (status0 e) \<lparr>getTimestamp = GetTime e 0, getID = client_id s\<rparr>
                       (s\<lparr>retries := 0\<rparr>)) = Inr REPLY_OK)"
proof -
  let ?t = "\<lparr>getTimestamp = GetTime e 0, getID = client_id s\<rparr>"
  let ?s0 = "s\<lparr>retries := 0\<rparr>"
  let ?L = "Commit_loop e (status0 e) ?t ?s0"
  from Commit_loop_general [where e = e and s = ?s0 and st = "status0 e" and t = ?t, OF refl]
  obtain k X where st: "snd (snd ?L) = ?s0\<lparr>retries := k, calls := calls ?s0 @ X\<rparr>"
    by blast
  obtain r t' where L: "?L = (r, t', s\<lparr>retries := k, calls := calls s @ X\<rparr>)"
    using st by (cases ?L) simp
  show ?thesis
  proof (cases r)
    case (Inl err)
    with L have "Commit e s = (Inl err, s\<lparr>retries := k, calls := calls s @ X\<rparr>)"
      by (intro Commit_fatal) simp
    with L Inl show ?thesis
      by (intro exI [of _ k] exI [of _ X] exI [of _ "[]"]) simp
  next
    case (Inr status)
    show ?thesis
    proof (cases "status = REPLY_OK")
      case True
      with L Inr have "Commit e s
          = (Inr True, s\<lparr>retries := k, calls := calls s @ X @ commit_calls (participants s)\<rparr>)"
        by (intro Commit_OK) simp
      with L Inr True show ?thesis
        by (intro exI [of _ k] exI [of _ X] exI [of _ "commit_calls (participants s)"]) simp
    next
      case False
      with L Inr have "Commit e s
          = (Inr False, s\<lparr>retries := k, calls := calls s @ X @ abort_calls (participants s)\<rparr>)"
        by (intro Commit_not_OK) simp_all
      with L Inr False show ?thesis
        by (intro exI [of _ k] exI [of _ X] exI [of _ "abort_calls (participants s)"]) simp
    qed
  qed
qed

subsection \<open>Get and Put\<close>

lemma data_shards_append [simp]: "data_shards (xs @ ys) = data_shards xs \<union> data_shards ys"
  by (auto simp: data_shards_def)

lemma data_shards_Nil [simp]: "data_shards [] = {}"
  by (simp add: data_shards_def)

lemma add_participant_state:
  "\<exists>X. add_participant i s = s\<lparr>participants := finsert i (participants s), calls := calls s @ X\<rparr> \<and>
       data_shards X = {}"
proof (cases "i |\<in>| participants s")
  case True
  then have "finsert i (participants s) = participants s" by auto
  with True show ?thesis
    by (intro exI [of _ "[]"]) (simp add: add_participant_def)
next
  case False
  then show ?thesis
    by (intro exI [of _ "[Send i (Begin_req (t_id s))]"]) (simp add: add_participant_def data_shards_def)
qed

lemma run_op_state:
  "\<exists>X. run_op f op s
          = s\<lparr>participants := finsert (f (op_key op) (nshards s)) (participants s),
              calls := calls s @ X\<rparr> \<and>
       data_shards X = {f (op_key op) (nshards s)}"
proof -
  let ?i = "f (op_key op) (nshards s)"
  from add_participant_state [of ?i s] obtain X where
    a: "add_participant ?i s = s\<lparr>participants := finsert ?i (participants s), calls := calls s @ X\<rparr>"
    and d: "data_shards X = {}"
    by blast
  show ?thesis
  proof (cases op)
    case (Get_op key val rep)
    then show ?thesis
      using a d by (intro exI [of _ "X @ [Send ?i (Get_req key), Await ?i]"])
        (simp add: Get_def Let_def data_shards_def)
  next
    case (Put_op key val rep)
    then show ?thesis
      using a d by (intro exI [of _ "X @ [Send ?i (Put_req key val), Await ?i]"])
        (simp add: Put_def Let_def data_shards_def)
  qed
qed

lemma run_ops_state:
  "\<exists>X. run_ops f ops s
          = s\<lparr>participants := participants s |\<union>| fset_of_list (map (\<lambda>op. f (op_key op) (nshards s)) ops),
              calls := calls s @ X\<rparr> \<and>
       data_shards X = (\<lambda>op. f (op_key op) (nshards s)) ` set ops"
proof (induction ops arbitrary: s)
  case Nil
  show ?case by (intro exI [of _ "[]"]) (simp add: run_ops_def)
next
  case (Cons op ops)
  let ?i = "f (op_key op) (nshards s)"
  from run_op_state [of f op s] obtain X where
    s1: "run_op f op s = s\<lparr>participants := finsert ?i (participants s), calls := calls s @ X\<rparr>"
    and X: "data_shards X = {?i}"
    by blast
  let ?s1 = "s\<lparr>participants := finsert ?i (participants s), calls := calls s @ X\<rparr>"
  from Cons.IH [of ?s1] obtain Y where
    s2: "run_ops f ops ?s1
        = ?s1\<lparr>participants := participants ?s1 |\<union>| fset_of_list (map (\<lambda>op. f (op_key op) (nshards ?s1)) ops),
               calls := calls ?s1 @ Y\<rparr>"
    and Y: "data_shards Y = (\<lambda>op. f (op_key op) (nshards ?s1)) ` set ops"
    by blast
  have "run_ops f (op # ops) s = run_ops f ops ?s1"
    by (simp add: run_ops_def s1)
  then have "run_ops f (op # ops) s
      = s\<lparr>participants := participants s |\<union>| fset_of_list (map (\<lambda>op. f (op_key op) (nshards s)) (op # ops)),
          calls := calls s @ (X @ Y)\<rparr>"
    by (simp add: s2)
  moreover have "data_shards (X @ Y) = (\<lambda>op. f (op_key op) (nshards s)) ` set (op # ops)"
    using X Y by simp
  ultimately show ?case by blast
qed

lemma Prepare_calls_shards:
  "\<exists>X. snd (snd (Prepare ts0 now vote t c)) = c\<lparr>calls := calls c @ X\<rparr> \<and>
       (\<forall>ev \<in> set X. shard_of ev |\<in>| participants c)"
proof -
  from Prepare_state [of c ts0 now vote t] obtain n where
    "snd (snd (Prepare ts0 now vote t c)) = c\<lparr>calls := calls c @ round_calls t (participants c) n\<rparr>"
    unfolding round_calls_def by blast
  then show ?thesis
    using round_calls_shards by blast
qed

subsection \<open>The calls of a round, exactly\<close>

lemma takeWhile_upto:
  "\<lbrakk>sorted xs; distinct xs; p \<in> set xs\<rbrakk> \<Longrightarrow>
   takeWhile (\<lambda>q. q \<noteq> p) xs @ [p] = filter (\<lambda>q. q \<le> p) (xs :: int list)"
proof (induction xs)
  case Nil
  then show ?case by simp
next
  case (Cons a xs)
  show ?case
  proof (cases "a = p")
    case True
    have "filter (\<lambda>q. q \<le> p) xs = []"
      using Cons.prems True by (auto simp: filter_empty_conv)
    with True show ?thesis by simp
  next
    case False
    with Cons.prems have "a \<le> p" "sorted xs" "distinct xs" "p \<in> set xs"
      by auto
    with Cons.IH False show ?thesis by simp
  qed
qed

lemma takeWhile_before:
  "\<lbrakk>sorted xs; q \<in> set (takeWhile (\<lambda>q. q \<noteq> p) xs); p \<in> set xs\<rbrakk> \<Longrightarrow> q < (p :: int)"
proof (induction xs)
  case Nil
  then show ?case by simp
next
  case (Cons a xs)
  then show ?case by (cases "a = p") (auto simp: less_le)
qed

lemma Prepare_votes_fail_exact:
  "\<forall>x \<in> set pre. fst (snd x) \<in> {REPLY_OK, REPLY_RETRY, REPLY_TIMEOUT} \<Longrightarrow>
   Prepare_votes (pre @ (p, REPLY_FAIL, t) # post) status ts cs
     = (Inr (Returned REPLY_FAIL), cs @ map (\<lambda>x. Await (fst x)) pre @ [Await p])"
proof (induction pre arbitrary: status ts cs)
  case Nil
  show ?case by simp
next
  case (Cons a pre)
  obtain q r u where a: "a = (q, r, u)" by (cases a)
  from Cons.prems have "\<forall>x \<in> set pre. fst (snd x) \<in> {REPLY_OK, REPLY_RETRY, REPLY_TIMEOUT}"
    by simp
  note IH = Cons.IH [OF this]
  from Cons.prems have "r \<in> {REPLY_OK, REPLY_RETRY, REPLY_TIMEOUT}"
    by (simp add: a)
  then show ?case
    unfolding a by (auto simp: IH)
qed

lemma Prepare_votes_fell_through_calls:
  "fst (Prepare_votes promises status ts cs) = Inr (Fell_through st t) \<Longrightarrow>
   snd (Prepare_votes promises status ts cs) = cs @ map (\<lambda>x. Await (fst x)) promises"
proof (induction promises arbitrary: status ts cs)
  case Nil
  then show ?case by simp
next
  case (Cons a promises)
  obtain q r u where a: "a = (q, r, u)" by (cases a)
  show ?case
    using Cons.prems Cons.IH unfolding a by (cases r) auto
qed

lemma Prepare_FAIL_exact:
  assumes "p |\<in>| participants s" and "fst (vote p) = REPLY_FAIL"
    and "\<forall>q |\<in>| participants s. q < p \<longrightarrow> fst (vote q) \<in> {REPLY_OK, REPLY_RETRY, REPLY_TIMEOUT}"
  shows "Prepare ts0 now vote timestamp s
           = (Inr REPLY_FAIL, timestamp,
              s\<lparr>calls := calls s @ failed_round_calls timestamp (participants s) p\<rparr>)"
proof -
  let ?ps = "sorted_list_of_fset (participants s)"
  let ?pre = "takeWhile (\<lambda>q. q \<noteq> p) ?ps"
  let ?post = "tl (dropWhile (\<lambda>q. q \<noteq> p) ?ps)"
  let ?cs = "calls s @ map (\<lambda>q. Send q (Prepare_req timestamp)) ?ps"
  have srt: "sorted ?ps" "distinct ?ps" and mem: "p \<in> set ?ps"
    using assms(1) by (simp_all add: sorted_list_of_fset.rep_eq)
  have dw: "dropWhile (\<lambda>q. q \<noteq> p) ?ps = p # ?post"
    using mem by (metis (mono_tags, lifting) dropWhile_eq_Nil_conv hd_dropWhile list.collapse)
  have split: "?ps = ?pre @ p # ?post"
    using takeWhile_dropWhile_id [of "\<lambda>q. q \<noteq> p" ?ps] dw by simp
  have before: "fst (vote q) \<in> {REPLY_OK, REPLY_RETRY, REPLY_TIMEOUT}" if "q \<in> set ?pre" for q
  proof -
    have "q < p" using takeWhile_before [OF srt(1) that mem] .
    moreover have "q |\<in>| participants s"
      using set_takeWhileD [OF that] by simp
    ultimately show ?thesis using assms(3) by blast
  qed
  obtain u where vp: "vote p = (REPLY_FAIL, u)"
    using assms(2) by (cases "vote p") simp
  have "map (\<lambda>q. (q, vote q)) ?ps
      = map (\<lambda>q. (q, vote q)) ?pre @ (p, REPLY_FAIL, u) # map (\<lambda>q. (q, vote q)) ?post"
    by (subst split) (simp add: vp)
  moreover have "\<forall>x \<in> set (map (\<lambda>q. (q, vote q)) ?pre).
      fst (snd x) \<in> {REPLY_OK, REPLY_RETRY, REPLY_TIMEOUT}"
    using before by auto
  ultimately have "Prepare_votes (map (\<lambda>q. (q, vote q)) ?ps) REPLY_OK ts0 ?cs
      = (Inr (Returned REPLY_FAIL),
         ?cs @ map (\<lambda>x. Await (fst x)) (map (\<lambda>q. (q, vote q)) ?pre) @ [Await p])"
    using Prepare_votes_fail_exact by simp
  moreover have "map (\<lambda>x. Await (fst x)) (map (\<lambda>q. (q, vote q)) ?pre) @ [Await p]
      = map Await (filter (\<lambda>q. q \<le> p) ?ps)"
    using takeWhile_upto [OF srt mem, symmetric] by (simp add: comp_def)
  moreover have "participants s \<noteq> {||}" using assms(1) by auto
  ultimately show ?thesis
    by (simp add: Prepare_eq failed_round_calls_def)
qed

lemma Prepare_RETRY_exact:
  assumes "\<forall>p |\<in>| participants s. fst (vote p) \<in> {REPLY_OK, REPLY_RETRY, REPLY_TIMEOUT}"
    and "\<exists>p |\<in>| participants s. fst (vote p) \<in> {REPLY_RETRY, REPLY_TIMEOUT}"
  shows "Prepare ts0 now vote timestamp s
           = (Inr REPLY_RETRY, setTimestamp now timestamp,
              s\<lparr>calls := calls s @ round_calls timestamp (participants s) (fcard (participants s))\<rparr>)"
proof -
  let ?ps = "sorted_list_of_fset (participants s)"
  let ?promises = "map (\<lambda>p. (p, vote p)) ?ps"
  let ?cs = "calls s @ map (\<lambda>p. Send p (Prepare_req timestamp)) ?ps"
  have ne: "participants s \<noteq> {||}" using assms(2) by auto
  have len: "length ?ps = fcard (participants s)"
    by (simp add: sorted_list_of_fset.rep_eq fcard.rep_eq)
  have "fst (Prepare ts0 now vote timestamp s) = Inr REPLY_RETRY"
    using assms by (simp only: Prepare_RETRY_iff)
  then obtain t where ft: "fst (Prepare_votes ?promises REPLY_OK ts0 ?cs) = Inr (Fell_through REPLY_RETRY t)"
    using ne Prepare_votes_returned [of ?promises REPLY_OK ts0 ?cs]
    by (auto simp: Prepare_eq split: prod.splits sum.splits votes.splits if_splits)
  from Prepare_votes_fell_through_calls [OF this]
  have "snd (Prepare_votes ?promises REPLY_OK ts0 ?cs) = ?cs @ map Await ?ps"
    by (simp add: comp_def)
  with ft have "Prepare_votes ?promises REPLY_OK ts0 ?cs
      = (Inr (Fell_through REPLY_RETRY t), ?cs @ map Await ?ps)"
    by (cases "Prepare_votes ?promises REPLY_OK ts0 ?cs") simp
  then show ?thesis
    using ne len by (simp add: Prepare_eq round_calls_def)
qed


lemma prepare_attempts_failed_round:
  "prepare_attempts q (failed_round_calls t P p) = (if q |\<in>| P then 1 else 0)"
  by (simp add: failed_round_calls_def prepare_attempts_sends)

lemma prepare_attempts_rounds:
  "prepare_attempts q (concat (map (\<lambda>i. round_calls (f i) P n) [j..<j + d]))
     = (if q |\<in>| P then d else 0)"
  by (induction d) (simp_all add: round_calls_attempts)

lemma Commit_loop_retry_rounds_exact:
  assumes "retries s = int j" and "int (j + d) \<le> COMMIT_RETRIES e"
    and "\<forall>i. j \<le> i \<and> i < j + d \<longrightarrow> retry_round e (participants s) i"
  shows "Commit_loop e st \<lparr>getTimestamp = GetTime e j, getID = c\<rparr> s
           = Commit_loop e (if d = 0 then st else REPLY_RETRY)
               \<lparr>getTimestamp = GetTime e (j + d), getID = c\<rparr>
               (s\<lparr>retries := int (j + d),
                  calls := calls s @ concat (map (\<lambda>i. round_calls \<lparr>getTimestamp = GetTime e i, getID = c\<rparr>
                                                      (participants s) (fcard (participants s)))
                                            [j..<j + d])\<rparr>)"
  using assms(2,3)
proof (induction d)
  case 0
  have "s\<lparr>retries := int (j + 0), calls := calls s @ concat (map (\<lambda>i.
      round_calls \<lparr>getTimestamp = GetTime e i, getID = c\<rparr> (participants s) (fcard (participants s)))
      [j..<j + 0])\<rparr> = s"
    using assms(1) by simp
  then show ?case by simp
next
  case (Suc d)
  let ?rounds = "\<lambda>d. concat (map (\<lambda>i. round_calls \<lparr>getTimestamp = GetTime e i, getID = c\<rparr>
      (participants s) (fcard (participants s))) [j..<j + d])"
  let ?sk = "s\<lparr>retries := int (j + d), calls := calls s @ ?rounds d\<rparr>"
  let ?tk = "\<lparr>getTimestamp = GetTime e (j + d), getID = c\<rparr>"
  have IH: "Commit_loop e st \<lparr>getTimestamp = GetTime e j, getID = c\<rparr> s
      = Commit_loop e (if d = 0 then st else REPLY_RETRY) ?tk ?sk"
    using Suc by simp
  have lt: "retries ?sk < COMMIT_RETRIES e"
    using Suc.prems(1) by simp
  have rr: "retry_round e (participants s) (j + d)"
    using Suc.prems(2) by simp
  have k: "nat (retries ?sk) = j + d"
    by (simp del: of_nat_add)
  have pr: "Prepare_round e ?tk ?sk
      = (Inr REPLY_RETRY, \<lparr>getTimestamp = GetTime e (j + Suc d), getID = c\<rparr>,
         ?sk\<lparr>calls := calls ?sk @ round_calls ?tk (participants s) (fcard (participants s))\<rparr>)"
    unfolding Prepare_round_def Let_def k
    using rr Prepare_RETRY_exact [of ?sk "prepare_vote e (j + d)" "ts0_of e (j + d)"
        "GetTime e (j + d + 1)" ?tk]
    by (simp add: retry_round_def setTimestamp_def)
  have "(snd (snd (Prepare_round e ?tk ?sk)))\<lparr>retries := retries ?sk + 1\<rparr>
      = s\<lparr>retries := int (j + Suc d), calls := calls s @ ?rounds (Suc d)\<rparr>"
    unfolding pr by simp
  moreover have "fst (Prepare_round e ?tk ?sk) = Inr REPLY_RETRY"
    "fst (snd (Prepare_round e ?tk ?sk)) = \<lparr>getTimestamp = GetTime e (j + Suc d), getID = c\<rparr>"
    unfolding pr by simp_all
  ultimately have "Commit_loop e (if d = 0 then st else REPLY_RETRY) ?tk ?sk
      = Commit_loop e REPLY_RETRY \<lparr>getTimestamp = GetTime e (j + Suc d), getID = c\<rparr>
          (s\<lparr>retries := int (j + Suc d), calls := calls s @ ?rounds (Suc d)\<rparr>)"
    using Commit_loop_again [OF lt, of ?tk "if d = 0 then st else REPLY_RETRY"]
    by (simp only:)
  with IH show ?case by simp
qed

subsection \<open>Claims about one round of Prepare\<close>

lemma fcard_02: "fcard {|0, 2 :: int|} = 2"
  by code_simp

lemma sorted_02: "sorted_list_of_fset {|0, 2 :: int|} = [0, 2]"
  by code_simp

text \<open>
  Claim C1 says that a round of \<^verbatim>\<open>Prepare\<close> whose status is RETRY hands back the larger
  of the clock reading and the largest time proposed by a RETRY vote. The code compares
  the clock with the \<^verbatim>\<open>proposed\<close> of the function, which is still 0: the times read
  from the promises go to the \<^verbatim>\<open>proposed\<close> of the loop body and from there to \<^verbatim>\<open>ts\<close>,
  which is never read again. With RETRY votes proposing 100 and 50 and the clock at 80,
  \<^verbatim>\<open>Prepare\<close> hands back 80, not 100.
\<close>

theorem C1_scenario_C:
  "Prepare ts0 80 (votes_of [(0, REPLY_RETRY, 100), (2, REPLY_RETRY, 50)])
      \<lparr>getTimestamp = 10, getID = 7\<rparr> client02
   = (Inr REPLY_RETRY, \<lparr>getTimestamp = 80, getID = 7\<rparr>,
      client02\<lparr>calls := [Send 0 (Prepare_req \<lparr>getTimestamp = 10, getID = 7\<rparr>),
                         Send 2 (Prepare_req \<lparr>getTimestamp = 10, getID = 7\<rparr>),
                         Await 0, Await 2]\<rparr>)"
  by (simp add: Prepare_eq client02_def votes_of_def sorted_02 setTimestamp_def)

text \<open>
  Claim C9: a round of \<^verbatim>\<open>Prepare\<close> returns \<^verbatim>\<open>REPLY_OK\<close> exactly when the participant
  set is not empty and every participant voted \<^verbatim>\<open>REPLY_OK\<close>, and then the argument
  \<^verbatim>\<open>timestamp\<close> comes back as it was passed.
\<close>

theorem C9_Prepare_all_ok_keeps_timestamp:
  "(fst (Prepare ts0 now vote timestamp s) = Inr REPLY_OK \<longleftrightarrow>
      participants s \<noteq> {||} \<and> (\<forall>p |\<in>| participants s. fst (vote p) = REPLY_OK)) \<and>
   (fst (Prepare ts0 now vote timestamp s) = Inr REPLY_OK \<longrightarrow>
      fst (snd (Prepare ts0 now vote timestamp s)) = timestamp)"
proof (intro conjI impI)
  show "fst (Prepare ts0 now vote timestamp s) = Inr REPLY_OK \<longleftrightarrow>
      participants s \<noteq> {||} \<and> (\<forall>p |\<in>| participants s. fst (vote p) = REPLY_OK)"
    by (rule Prepare_OK_iff)
next
  assume "fst (Prepare ts0 now vote timestamp s) = Inr REPLY_OK"
  then show "fst (snd (Prepare ts0 now vote timestamp s)) = timestamp"
    by (simp add: Prepare_timestamp)
qed

theorem C9_witness:
  "fst (Prepare 0 80 (votes_of [(0, REPLY_OK, 0), (2, REPLY_OK, 0)])
          \<lparr>getTimestamp = 10, getID = 7\<rparr> client02) = Inr REPLY_OK \<and>
   participants client02 = {|0, 2|} \<and>
   fst (votes_of [(0, REPLY_OK, 0), (2, REPLY_OK, 0)] 0) = REPLY_OK \<and>
   fst (votes_of [(0, REPLY_OK, 0), (2, REPLY_OK, 0)] 2) = REPLY_OK \<and>
   fst (snd (Prepare 0 80 (votes_of [(0, REPLY_OK, 0), (2, REPLY_OK, 0)])
          \<lparr>getTimestamp = 10, getID = 7\<rparr> client02)) = \<lparr>getTimestamp = 10, getID = 7\<rparr>"
proof -
  have h: "participants client02 \<noteq> {||} \<and>
      (\<forall>p |\<in>| participants client02. fst (votes_of [(0, REPLY_OK, 0), (2, REPLY_OK, 0)] p) = REPLY_OK)"
    by (simp add: client02_def votes_of_def)
  with C9_Prepare_all_ok_keeps_timestamp [of 0 80 "votes_of [(0, REPLY_OK, 0), (2, REPLY_OK, 0)]"
      "\<lparr>getTimestamp = 10, getID = 7\<rparr>" client02]
  show ?thesis by (simp add: client02_def votes_of_def)
qed

text \<open>
  Claim C10: when \<^verbatim>\<open>Prepare\<close> returns \<^verbatim>\<open>REPLY_FAIL\<close>, the argument \<^verbatim>\<open>timestamp\<close>, the
  participant set and the transaction id are unchanged; no member of the client
  changes (the last conjunct: only the record of the calls made has grown).
\<close>

theorem C10_Prepare_FAIL_changes_nothing:
  assumes "fst (Prepare ts0 now vote timestamp s) = Inr REPLY_FAIL"
  shows "fst (snd (Prepare ts0 now vote timestamp s)) = timestamp \<and>
         participants (snd (snd (Prepare ts0 now vote timestamp s))) = participants s \<and>
         t_id (snd (snd (Prepare ts0 now vote timestamp s))) = t_id s \<and>
         snd (snd (Prepare ts0 now vote timestamp s))
           = s\<lparr>calls := calls (snd (snd (Prepare ts0 now vote timestamp s)))\<rparr>"
proof -
  from Prepare_state [of s ts0 now vote timestamp] obtain cs where
    "snd (snd (Prepare ts0 now vote timestamp s)) = s\<lparr>calls := cs\<rparr>"
    by blast
  then show ?thesis
    using assms by (simp add: Prepare_timestamp)
qed

theorem C10_witness:
  "fst (Prepare 0 80 (votes_of [(0, REPLY_OK, 0), (2, REPLY_FAIL, 0)])
          \<lparr>getTimestamp = 10, getID = 7\<rparr> client02) = Inr REPLY_FAIL \<and>
   fst (snd (Prepare 0 80 (votes_of [(0, REPLY_OK, 0), (2, REPLY_FAIL, 0)])
          \<lparr>getTimestamp = 10, getID = 7\<rparr> client02)) = \<lparr>getTimestamp = 10, getID = 7\<rparr> \<and>
   participants (snd (snd (Prepare 0 80 (votes_of [(0, REPLY_OK, 0), (2, REPLY_FAIL, 0)])
          \<lparr>getTimestamp = 10, getID = 7\<rparr> client02))) = {|0, 2|} \<and>
   t_id (snd (snd (Prepare 0 80 (votes_of [(0, REPLY_OK, 0), (2, REPLY_FAIL, 0)])
          \<lparr>getTimestamp = 10, getID = 7\<rparr> client02))) = 70001"
proof -
  have h: "fst (Prepare 0 80 (votes_of [(0, REPLY_OK, 0), (2, REPLY_FAIL, 0)])
          \<lparr>getTimestamp = 10, getID = 7\<rparr> client02) = Inr REPLY_FAIL"
    by (simp add: Prepare_eq client02_def votes_of_def sorted_02)
  from C10_Prepare_FAIL_changes_nothing [OF h] h show ?thesis
    by (simp add: client02_def)
qed

text \<open>
  Claim C7: a round in which some participant timed out and no participant voted
  \<^verbatim>\<open>REPLY_FAIL\<close> never returns \<^verbatim>\<open>REPLY_FAIL\<close>; when every vote is one of the four
  codes of the protocol, it returns \<^verbatim>\<open>REPLY_RETRY\<close>. In particular a round of OK and
  TIMEOUT votes with at least one TIMEOUT returns \<^verbatim>\<open>REPLY_RETRY\<close>.
\<close>

theorem C7_Prepare_TIMEOUT_is_RETRY:
  assumes "p |\<in>| participants s" and "fst (vote p) = REPLY_TIMEOUT"
    and "\<forall>q |\<in>| participants s. fst (vote q) \<noteq> REPLY_FAIL"
  shows "fst (Prepare ts0 now vote timestamp s) \<noteq> Inr REPLY_FAIL \<and>
         ((\<forall>q |\<in>| participants s. protocol_reply (fst (vote q))) \<longrightarrow>
            fst (Prepare ts0 now vote timestamp s) = Inr REPLY_RETRY)"
proof (intro conjI impI)
  show "fst (Prepare ts0 now vote timestamp s) \<noteq> Inr REPLY_FAIL"
    using Prepare_FAIL_only_if [of ts0 now vote timestamp s] assms(3) by blast
next
  assume known: "\<forall>q |\<in>| participants s. protocol_reply (fst (vote q))"
  have "fst (vote q) \<in> {REPLY_OK, REPLY_RETRY, REPLY_TIMEOUT}" if "q |\<in>| participants s" for q
    using that known assms(3) by (cases "fst (vote q)") (auto simp: protocol_reply_def)
  moreover have "\<exists>q |\<in>| participants s. fst (vote q) \<in> {REPLY_RETRY, REPLY_TIMEOUT}"
    using assms(1,2) by auto
  ultimately show "fst (Prepare ts0 now vote timestamp s) = Inr REPLY_RETRY"
    unfolding Prepare_RETRY_iff by blast
qed

theorem C7_witness:
  "2 |\<in>| participants client02 \<and>
   fst (votes_of [(0, REPLY_OK, 0), (2, REPLY_TIMEOUT, 0)] 2) = REPLY_TIMEOUT \<and>
   participants client02 = {|0, 2|} \<and>
   fst (votes_of [(0, REPLY_OK, 0), (2, REPLY_TIMEOUT, 0)] 0) = REPLY_OK \<and>
   fst (Prepare 0 80 (votes_of [(0, REPLY_OK, 0), (2, REPLY_TIMEOUT, 0)])
          \<lparr>getTimestamp = 10, getID = 7\<rparr> client02) = Inr REPLY_RETRY"
proof -
  have h1: "2 |\<in>| participants client02"
    and h2: "fst (votes_of [(0, REPLY_OK, 0), (2, REPLY_TIMEOUT, 0)] 2) = REPLY_TIMEOUT"
    and h3: "\<forall>q |\<in>| participants client02.
       fst (votes_of [(0, REPLY_OK, 0), (2, REPLY_TIMEOUT, 0)] q) \<noteq> REPLY_FAIL"
    and h4: "\<forall>q |\<in>| participants client02.
       protocol_reply (fst (votes_of [(0, REPLY_OK, 0), (2, REPLY_TIMEOUT, 0)] q))"
    by (simp_all add: client02_def votes_of_def protocol_reply_def)
  from C7_Prepare_TIMEOUT_is_RETRY [OF h1 h2 h3, of 0 80 "\<lparr>getTimestamp = 10, getID = 7\<rparr>"] h4
  have "fst (Prepare 0 80 (votes_of [(0, REPLY_OK, 0), (2, REPLY_TIMEOUT, 0)])
          \<lparr>getTimestamp = 10, getID = 7\<rparr> client02) = Inr REPLY_RETRY"
    by blast
  moreover have "participants client02 = {|0, 2|}"
    by (simp add: client02_def)
  moreover have "fst (votes_of [(0, REPLY_OK, 0), (2, REPLY_TIMEOUT, 0)] 0) = REPLY_OK"
    by (simp add: votes_of_def)
  ultimately show ?thesis using h1 h2 by blast
qed

lemmas run_simps =
  Commit_def Commit_loop.simps Prepare_round_def Prepare_eq env_rounds_def client02_def
  votes_of_def sorted_02 setTimestamp_def fold_snoc Let_def Abort_eq

subsection \<open>Claims about Commit\<close>

text \<open>
  Claim C6: with a positive bound on the rounds, \<^verbatim>\<open>Commit\<close> on an empty participant set
  stops at the \<^verbatim>\<open>ASSERT\<close> of the first call of \<^verbatim>\<open>Prepare\<close>, before any call to a
  shard (the record of calls is unchanged); and with at least one participant no run of
  \<^verbatim>\<open>Commit\<close> ends in that assertion.
\<close>

theorem C6_Commit_without_participants_is_fatal:
  "(0 < COMMIT_RETRIES e \<and> participants s = {||} \<longrightarrow>
      Commit e s = (Inl Assertion_failed, s\<lparr>retries := 0\<rparr>)) \<and>
   (participants s \<noteq> {||} \<longrightarrow> fst (Commit e s) \<noteq> Inl Assertion_failed)"
proof (intro conjI impI)
  assume a: "0 < COMMIT_RETRIES e \<and> participants s = {||}"
  let ?t = "\<lparr>getTimestamp = GetTime e 0, getID = client_id s\<rparr>"
  let ?s0 = "s\<lparr>retries := 0\<rparr>"
  have lt: "retries ?s0 < COMMIT_RETRIES e" using a by simp
  have pr: "Prepare_round e ?t ?s0 = (Inl Assertion_failed, ?t, ?s0)"
    using a by (simp add: Prepare_round_def Prepare_eq)
  then have "fst (Prepare_round e ?t ?s0) \<noteq> Inr REPLY_RETRY" by simp
  from Commit_loop_break [OF lt this, of "status0 e"] pr
  show "Commit e s = (Inl Assertion_failed, s\<lparr>retries := 0\<rparr>)"
    by (intro Commit_fatal) simp
next
  assume "participants s \<noteq> {||}"
  with Commit_state [of e s] show "fst (Commit e s) \<noteq> Inl Assertion_failed"
    by blast
qed

theorem C6_witness:
  "0 < COMMIT_RETRIES (env_rounds 3 []) \<and> participants client_idle = {||} \<and>
   Commit (env_rounds 3 []) client_idle = (Inl Assertion_failed, client_idle) \<and>
   participants client02 = {|0, 2|} \<and>
   fst (Commit (env_rounds 3 []) client02) \<noteq> Inl Assertion_failed"
proof -
  have h1: "0 < COMMIT_RETRIES (env_rounds 3 []) \<and> participants client_idle = {||}"
    by (simp add: env_rounds_def client_idle_def)
  have h2: "participants client02 \<noteq> {||}" "participants client02 = {|0, 2|}"
    by (simp_all add: client02_def)
  have "client_idle\<lparr>retries := 0\<rparr> = client_idle"
    by (simp add: client_idle_def)
  with C6_Commit_without_participants_is_fatal [of "env_rounds 3 []" client_idle]
    C6_Commit_without_participants_is_fatal [of "env_rounds 3 []" client02] h1 h2
  show ?thesis by simp
qed

text \<open>
  Claim C5: no run of \<^verbatim>\<open>Commit\<close> sends more than \<^verbatim>\<open>COMMIT_RETRIES\<close> \<^verbatim>\<open>Prepare\<close>
  requests to any shard. When every round up to the bound stays undecided (for example
  every shard times out every time), \<^verbatim>\<open>Commit\<close> returns \<^verbatim>\<open>false\<close>, not a fatal
  exit, after exactly \<^verbatim>\<open>COMMIT_RETRIES\<close> requests to each participant, and its last
  calls are those of \<^verbatim>\<open>Abort\<close> on every participant.
\<close>

theorem C5_Commit_bounded_retries:
  "(\<forall>p. prepare_attempts p (new_calls s (snd (Commit e s))) \<le> nat (COMMIT_RETRIES e)) \<and>
   (0 < COMMIT_RETRIES e \<and>
    (\<forall>k. int k < COMMIT_RETRIES e \<longrightarrow> retry_round e (participants s) k) \<longrightarrow>
      fst (Commit e s) = Inr False \<and>
      (\<forall>p |\<in>| participants s.
          prepare_attempts p (new_calls s (snd (Commit e s))) = nat (COMMIT_RETRIES e)) \<and>
      (\<exists>X. calls (snd (Commit e s)) = calls s @ X @ abort_calls (participants s) \<and>
           (\<forall>p |\<in>| participants s. prepare_attempts p X = nat (COMMIT_RETRIES e))))"
proof (intro conjI impI)
  from Commit_state [of e s] obtain k X where
    "snd (Commit e s) = s\<lparr>retries := k, calls := calls s @ X\<rparr>"
    "\<forall>p. prepare_attempts p X \<le> nat (COMMIT_RETRIES e)"
    by blast
  then show "\<forall>p. prepare_attempts p (new_calls s (snd (Commit e s))) \<le> nat (COMMIT_RETRIES e)"
    by simp
next
  assume a: "0 < COMMIT_RETRIES e \<and>
    (\<forall>k. int k < COMMIT_RETRIES e \<longrightarrow> retry_round e (participants s) k)"
  let ?t = "\<lparr>getTimestamp = GetTime e 0, getID = client_id s\<rparr>"
  let ?s0 = "s\<lparr>retries := 0\<rparr>"
  let ?K = "nat (COMMIT_RETRIES e)"
  have "retries ?s0 = int 0" "int (0 + ?K) \<le> COMMIT_RETRIES e"
    "\<forall>i. 0 \<le> i \<and> i < 0 + ?K \<longrightarrow> retry_round e (participants ?s0) i"
    using a by simp_all
  from Commit_loop_retry_rounds [OF this, of "status0 e" ?t]
  obtain st' t' X where
    loop: "Commit_loop e (status0 e) ?t ?s0
        = Commit_loop e st' t' (?s0\<lparr>retries := int (0 + ?K), calls := calls ?s0 @ X\<rparr>)"
    and at: "\<forall>p. prepare_attempts p X = (if p |\<in>| participants ?s0 then ?K else 0)"
    and st': "0 < ?K \<longrightarrow> st' = REPLY_RETRY"
    by (elim exE conjE) (rule that)
  let ?sK = "s\<lparr>retries := COMMIT_RETRIES e, calls := calls s @ X\<rparr>"
  have sK: "?s0\<lparr>retries := int (0 + ?K), calls := calls ?s0 @ X\<rparr> = ?sK"
    using a by simp
  have "Commit_loop e st' t' ?sK = (Inr st', t', ?sK)"
    by (intro Commit_loop_exit) simp
  moreover have "st' = REPLY_RETRY" using st' a by simp
  ultimately have L: "Commit_loop e (status0 e) ?t ?s0 = (Inr REPLY_RETRY, t', ?sK)"
    using loop sK by simp
  have ne: "REPLY_RETRY \<noteq> REPLY_OK" by simp
  have C: "Commit e s = (Inr False,
      s\<lparr>retries := COMMIT_RETRIES e, calls := calls s @ X @ abort_calls (participants s)\<rparr>)"
    using Commit_not_OK [OF L ne] .
  show "fst (Commit e s) = Inr False"
    by (simp add: C)
  show "\<forall>p |\<in>| participants s.
      prepare_attempts p (new_calls s (snd (Commit e s))) = nat (COMMIT_RETRIES e)"
    using at by (simp add: C)
  show "\<exists>X. calls (snd (Commit e s)) = calls s @ X @ abort_calls (participants s) \<and>
      (\<forall>p |\<in>| participants s. prepare_attempts p X = nat (COMMIT_RETRIES e))"
    using at by (intro exI [of _ X]) (simp add: C)
qed

theorem C5_witness:
  "0 < COMMIT_RETRIES (env_rounds 3 []) \<and>
   prepare_vote (env_rounds 3 []) = (\<lambda>k p. (REPLY_TIMEOUT, 0)) \<and>
   fst (Commit (env_rounds 3 []) client02) = Inr False \<and>
   prepare_attempts 0 (new_calls client02 (snd (Commit (env_rounds 3 []) client02))) = 3 \<and>
   prepare_attempts 2 (new_calls client02 (snd (Commit (env_rounds 3 []) client02))) = 3 \<and>
   prepare_attempts 1 (new_calls client02 (snd (Commit (env_rounds 3 []) client02))) \<le> 3 \<and>
   (\<exists>X. calls (snd (Commit (env_rounds 3 []) client02))
          = calls client02 @ X @ [Send 0 Abort_req, Send 2 Abort_req, Await 0, Await 2])"
proof -
  have v: "prepare_vote (env_rounds 3 []) = (\<lambda>k p. (REPLY_TIMEOUT, 0))"
    by (simp add: env_rounds_def votes_of_def fun_eq_iff)
  have h: "0 < COMMIT_RETRIES (env_rounds 3 []) \<and>
      (\<forall>k. int k < COMMIT_RETRIES (env_rounds 3 []) \<longrightarrow>
           retry_round (env_rounds 3 []) (participants client02) k)"
    by (auto simp: retry_round_def env_rounds_def client02_def votes_of_def)
  have a: "abort_calls (participants client02) = [Send 0 Abort_req, Send 2 Abort_req, Await 0, Await 2]"
    by (simp add: abort_calls_def client02_def sorted_02)
  have n: "nat (COMMIT_RETRIES (env_rounds 3 [])) = 3"
    by (simp add: env_rounds_def)
  have p: "0 |\<in>| participants client02" "2 |\<in>| participants client02"
    by (simp_all add: client02_def)
  from C5_Commit_bounded_retries [of client02 "env_rounds 3 []"] h
  show ?thesis
    unfolding a n using v p by blast
qed

text \<open>
  Claim C2: with a positive bound on the rounds and at least one participant,
  \<^verbatim>\<open>Commit\<close> returns \<^verbatim>\<open>true\<close> exactly when every participant voted \<^verbatim>\<open>REPLY_OK\<close> in
  the round that ended the loop. That round is the last one performed: each participant
  was sent one \<^verbatim>\<open>Prepare\<close> request for each round up to it, and none after.
\<close>

theorem C2_Commit_true_iff_last_round_all_ok:
  assumes "0 < COMMIT_RETRIES e" and "participants s \<noteq> {||}"
  shows "(fst (Commit e s) = Inr True \<longleftrightarrow>
            (\<forall>p |\<in>| participants s.
               fst (prepare_vote e (terminating_round e (snd (Commit e s))) p) = REPLY_OK)) \<and>
         (\<forall>p |\<in>| participants s.
            prepare_attempts p (new_calls s (snd (Commit e s)))
              = terminating_round e (snd (Commit e s)) + 1)"
proof -
  let ?t = "\<lparr>getTimestamp = GetTime e 0, getID = client_id s\<rparr>"
  let ?s0 = "s\<lparr>retries := 0\<rparr>"
  let ?L = "Commit_loop e (status0 e) ?t ?s0"
  from Commit_summary [of e s] obtain k X Y where
    R: "snd (snd ?L) = s\<lparr>retries := k, calls := calls s @ X\<rparr>"
    and C: "snd (Commit e s) = s\<lparr>retries := k, calls := calls s @ X @ Y\<rparr>"
    and Y: "\<forall>p. prepare_attempts p Y = 0"
    and ok: "fst (Commit e s) = Inr True \<longleftrightarrow> fst ?L = Inr REPLY_OK"
    by blast
  have tr: "terminating_round e (snd (Commit e s)) = terminating_round e (snd (snd ?L))"
    by (simp add: terminating_round_def R C)
  have pre: "0 \<le> retries ?s0" "retries ?s0 < COMMIT_RETRIES e" "participants ?s0 \<noteq> {||}"
    using assms by simp_all
  have "fst ?L = Inr REPLY_OK \<longleftrightarrow>
      (\<forall>p |\<in>| participants s. fst (prepare_vote e (terminating_round e (snd (snd ?L))) p) = REPLY_OK)"
    using Commit_loop_OK_iff [where st = "status0 e" and t = ?t, OF refl pre] by simp
  then have first: "fst (Commit e s) = Inr True \<longleftrightarrow>
      (\<forall>p |\<in>| participants s.
         fst (prepare_vote e (terminating_round e (snd (Commit e s))) p) = REPLY_OK)"
    by (simp only: ok tr)
  have second: "prepare_attempts p (new_calls s (snd (Commit e s)))
      = terminating_round e (snd (Commit e s)) + 1" if "p |\<in>| participants s" for p
  proof -
    have "p |\<in>| participants ?s0" using that by simp
    from Commit_loop_rounds [where st = "status0 e" and t = ?t, OF refl pre(1,2) this]
    have "prepare_attempts p X = terminating_round e (snd (snd ?L)) + 1"
      unfolding R by (simp add: new_calls_def)
    moreover have "prepare_attempts p (new_calls s (snd (Commit e s))) = prepare_attempts p X"
      using Y by (simp add: C)
    ultimately show ?thesis
      by (simp only: tr)
  qed
  from first second show ?thesis by blast
qed

theorem C2_witness:
  "0 < COMMIT_RETRIES env_retry_ok \<and> participants client02 = {|0, 2|} \<and>
   terminating_round env_retry_ok (snd (Commit env_retry_ok client02)) = 1 \<and>
   fst (prepare_vote env_retry_ok 1 0) = REPLY_OK \<and>
   fst (prepare_vote env_retry_ok 1 2) = REPLY_OK \<and>
   fst (Commit env_retry_ok client02) = Inr True \<and>
   prepare_attempts 0 (new_calls client02 (snd (Commit env_retry_ok client02))) = 2 \<and>
   prepare_attempts 2 (new_calls client02 (snd (Commit env_retry_ok client02))) = 2"
proof -
  have h: "0 < COMMIT_RETRIES env_retry_ok" "participants client02 \<noteq> {||}"
    by (simp_all add: env_retry_ok_def env_rounds_def client02_def)
  have p: "participants client02 = {|0, 2|}"
    by (simp add: client02_def)
  have r: "retries (snd (Commit env_retry_ok client02)) = 1"
    by (simp add: env_retry_ok_def run_simps)
  have t: "terminating_round env_retry_ok (snd (Commit env_retry_ok client02)) = 1"
    by (simp add: terminating_round_def r) (simp add: env_retry_ok_def env_rounds_def)
  have v: "fst (prepare_vote env_retry_ok 1 0) = REPLY_OK"
    "fst (prepare_vote env_retry_ok 1 2) = REPLY_OK"
    by (simp_all add: env_retry_ok_def env_rounds_def votes_of_def)
  from C2_Commit_true_iff_last_round_all_ok [OF h] show ?thesis
    unfolding t p using v h(1) by simp
qed

text \<open>
  Claim C3: let \<open>p\<close> be the first participant, in the order of the loop, whose promise
  holds \<^verbatim>\<open>REPLY_FAIL\<close> (the promises before it hold OK, RETRY or TIMEOUT; those after
  it may hold anything, also a code outside the protocol). Then \<^verbatim>\<open>Prepare\<close> returns
  \<^verbatim>\<open>REPLY_FAIL\<close> at the promise of \<open>p\<close>: it has waited for the promises up to \<open>p\<close>
  and for no later one, and it leaves the timestamp and the client as they were. When
  this is round \<open>k\<close> of \<^verbatim>\<open>Commit\<close>, reached because the rounds before it were
  undecided, \<^verbatim>\<open>Commit\<close> returns \<^verbatim>\<open>false\<close> and its calls are exactly those of the
  \<open>k\<close> undecided rounds, those of the failed round, and those of \<^verbatim>\<open>Abort\<close>: each
  participant has been sent \<open>k + 1\<close> \<^verbatim>\<open>Prepare\<close> requests, none after the failed
  round, and every participant is sent an abort.
\<close>

theorem C3_FAIL_vote_aborts:
  assumes "int k < COMMIT_RETRIES e"
    and "\<forall>i<k. retry_round e (participants s) i"
    and "p |\<in>| participants s" and "fst (prepare_vote e k p) = REPLY_FAIL"
    and "\<forall>q |\<in>| participants s.
           q < p \<longrightarrow> fst (prepare_vote e k q) \<in> {REPLY_OK, REPLY_RETRY, REPLY_TIMEOUT}"
  shows "Prepare ts0 now (prepare_vote e k) timestamp s
           = (Inr REPLY_FAIL, timestamp,
              s\<lparr>calls := calls s @ failed_round_calls timestamp (participants s) p\<rparr>) \<and>
         Commit e s
           = (Inr False,
              s\<lparr>retries := int k,
                calls := calls s
                  @ concat (map (\<lambda>i. round_calls (round_timestamp e s i) (participants s)
                                        (fcard (participants s))) [0..<k])
                  @ failed_round_calls (round_timestamp e s k) (participants s) p
                  @ abort_calls (participants s)\<rparr>) \<and>
         (\<forall>q |\<in>| participants s.
            prepare_attempts q (new_calls s (snd (Commit e s))) = k + 1) \<and>
         (\<forall>q |\<in>| participants s.
            Send q Abort_req \<in> set (new_calls s (snd (Commit e s))))"
proof -
  let ?P = "participants s"
  let ?s0 = "s\<lparr>retries := 0\<rparr>"
  let ?rounds = "concat (map (\<lambda>i. round_calls (round_timestamp e s i) ?P (fcard ?P)) [0..<k])"
  let ?sk = "s\<lparr>retries := int k, calls := calls s @ ?rounds\<rparr>"
  let ?tk = "round_timestamp e s k"
  have first: "Prepare ts0 now (prepare_vote e k) timestamp s
      = (Inr REPLY_FAIL, timestamp, s\<lparr>calls := calls s @ failed_round_calls timestamp ?P p\<rparr>)"
    using assms(3,4,5) by (rule Prepare_FAIL_exact)
  have "retries ?s0 = int 0" "int (0 + k) \<le> COMMIT_RETRIES e"
    "\<forall>i. 0 \<le> i \<and> i < 0 + k \<longrightarrow> retry_round e (participants ?s0) i"
    using assms(1,2) by simp_all
  from Commit_loop_retry_rounds_exact [OF this, of "status0 e" "client_id s"]
  have loop: "Commit_loop e (status0 e) \<lparr>getTimestamp = GetTime e 0, getID = client_id s\<rparr> ?s0
      = Commit_loop e (if k = 0 then status0 e else REPLY_RETRY) ?tk ?sk"
    by (simp add: round_timestamp_def)
  have lt: "retries ?sk < COMMIT_RETRIES e"
    using assms(1) by simp
  have pr: "Prepare_round e ?tk ?sk
      = (Inr REPLY_FAIL, ?tk, ?sk\<lparr>calls := calls ?sk @ failed_round_calls ?tk ?P p\<rparr>)"
    unfolding Prepare_round_def Let_def
    using Prepare_FAIL_exact [of p ?sk "prepare_vote e k" "ts0_of e k" "GetTime e (k + 1)" ?tk]
      assms(3,4,5) by simp
  then have "fst (Prepare_round e ?tk ?sk) \<noteq> Inr REPLY_RETRY"
    by simp
  from Commit_loop_break [OF lt this, of "if k = 0 then status0 e else REPLY_RETRY"] loop pr
  have L: "Commit_loop e (status0 e) \<lparr>getTimestamp = GetTime e 0, getID = client_id s\<rparr> ?s0
      = (Inr REPLY_FAIL, ?tk,
         s\<lparr>retries := int k, calls := calls s @ (?rounds @ failed_round_calls ?tk ?P p)\<rparr>)"
    by simp
  have ne: "REPLY_FAIL \<noteq> REPLY_OK" by simp
  have C: "Commit e s = (Inr False,
      s\<lparr>retries := int k,
        calls := calls s @ (?rounds @ failed_round_calls ?tk ?P p) @ abort_calls ?P\<rparr>)"
    using Commit_not_OK [OF L ne] .
  have rounds: "prepare_attempts q ?rounds = (if q |\<in>| ?P then k else 0)" for q
    using prepare_attempts_rounds [of q "round_timestamp e s" ?P "fcard ?P" 0 k] by simp
  have "\<forall>q |\<in>| ?P. prepare_attempts q (new_calls s (snd (Commit e s))) = k + 1"
    by (simp add: C rounds prepare_attempts_failed_round)
  moreover have "\<forall>q |\<in>| ?P. Send q Abort_req \<in> set (new_calls s (snd (Commit e s)))"
    by (simp add: C abort_calls_def)
  ultimately show ?thesis
    using first C by simp
qed

theorem C3_witness:
  "int 1 < COMMIT_RETRIES env_retry_fail \<and>
   retry_round env_retry_fail (participants client02) 0 \<and>
   participants client02 = {|0, 2|} \<and>
   prepare_vote env_retry_fail 1 0 = (REPLY_FAIL, 0) \<and>
   prepare_vote env_retry_fail 1 2 = (REPLY_OTHER 9, 0) \<and>
   Prepare 0 80 (prepare_vote env_retry_fail 1) \<lparr>getTimestamp = 10, getID = 7\<rparr> client02
     = (Inr REPLY_FAIL, \<lparr>getTimestamp = 10, getID = 7\<rparr>,
        client02\<lparr>calls := [Send 0 (Prepare_req \<lparr>getTimestamp = 10, getID = 7\<rparr>),
                           Send 2 (Prepare_req \<lparr>getTimestamp = 10, getID = 7\<rparr>),
                           Await 0]\<rparr>) \<and>
   Commit env_retry_fail client02
     = (Inr False,
        client02\<lparr>retries := 1,
                 calls := [Send 0 (Prepare_req \<lparr>getTimestamp = 80, getID = 7\<rparr>),
                           Send 2 (Prepare_req \<lparr>getTimestamp = 80, getID = 7\<rparr>),
                           Await 0, Await 2,
                           Send 0 (Prepare_req \<lparr>getTimestamp = 81, getID = 7\<rparr>),
                           Send 2 (Prepare_req \<lparr>getTimestamp = 81, getID = 7\<rparr>),
                           Await 0,
                           Send 0 Abort_req, Send 2 Abort_req, Await 0, Await 2]\<rparr>) \<and>
   prepare_attempts 0 (new_calls client02 (snd (Commit env_retry_fail client02))) = 2 \<and>
   prepare_attempts 2 (new_calls client02 (snd (Commit env_retry_fail client02))) = 2 \<and>
   Send 0 Abort_req \<in> set (new_calls client02 (snd (Commit env_retry_fail client02))) \<and>
   Send 2 Abort_req \<in> set (new_calls client02 (snd (Commit env_retry_fail client02)))"
proof -
  have h1: "int 1 < COMMIT_RETRIES env_retry_fail"
    by (simp add: env_retry_fail_def env_rounds_def)
  have r0: "retry_round env_retry_fail (participants client02) 0"
    by (simp add: retry_round_def env_retry_fail_def env_rounds_def client02_def votes_of_def)
  then have h2: "\<forall>i<1. retry_round env_retry_fail (participants client02) i"
    by simp
  have h3: "0 |\<in>| participants client02" and p: "participants client02 = {|0, 2|}"
    by (simp_all add: client02_def)
  have v: "prepare_vote env_retry_fail 1 0 = (REPLY_FAIL, 0)"
    "prepare_vote env_retry_fail 1 2 = (REPLY_OTHER 9, 0)"
    by (simp_all add: env_retry_fail_def env_rounds_def votes_of_def)
  then have h4: "fst (prepare_vote env_retry_fail 1 0) = REPLY_FAIL"
    by simp
  have h5: "\<forall>q |\<in>| participants client02.
      q < 0 \<longrightarrow> fst (prepare_vote env_retry_fail 1 q) \<in> {REPLY_OK, REPLY_RETRY, REPLY_TIMEOUT}"
    by (simp add: client02_def)
  have t: "round_timestamp env_retry_fail client02 0 = \<lparr>getTimestamp = 80, getID = 7\<rparr>"
    "round_timestamp env_retry_fail client02 (Suc 0) = \<lparr>getTimestamp = 81, getID = 7\<rparr>"
    by (simp_all add: round_timestamp_def env_retry_fail_def env_rounds_def client02_def)
  have c: "calls client02 = []"
    by (simp add: client02_def)
  from C3_FAIL_vote_aborts [OF h1 h2 h3 h4 h5, of 0 80 "\<lparr>getTimestamp = 10, getID = 7\<rparr>"]
  show ?thesis
    using h1 r0 v
    by (simp add: p t c fcard_02 sorted_02 round_calls_def failed_round_calls_def abort_calls_def
        prepare_attempts_def new_calls_def)
qed

subsection \<open>Claims about Abort\<close>

text \<open>
  Claim C8: \<^verbatim>\<open>Abort\<close> sends an abort request to every participant and then, before it
  returns, calls \<^verbatim>\<open>GetReply\<close> on the promise of every one of them (the call blocks
  until the reply or the timeout of the promise); it changes nothing else.
\<close>

theorem C8_Abort_sends_and_awaits_all:
  "calls (Abort s) = calls s @ map (\<lambda>p. Send p Abort_req) (sorted_list_of_fset (participants s))
                             @ map Await (sorted_list_of_fset (participants s)) \<and>
   Abort s = s\<lparr>calls := calls (Abort s)\<rparr> \<and>
   (\<forall>p |\<in>| participants s.
      Send p Abort_req \<in> set (new_calls s (Abort s)) \<and> Await p \<in> set (new_calls s (Abort s)))"
  by (simp add: Abort_eq new_calls_def)

theorem C8_witness:
  "participants client02 = {|0, 2|} \<and>
   calls (Abort client02) = [Send 0 Abort_req, Send 2 Abort_req, Await 0, Await 2] \<and>
   Send 0 Abort_req \<in> set (new_calls client02 (Abort client02)) \<and>
   Await 0 \<in> set (new_calls client02 (Abort client02)) \<and>
   Send 2 Abort_req \<in> set (new_calls client02 (Abort client02)) \<and>
   Await 2 \<in> set (new_calls client02 (Abort client02))"
proof -
  have p: "participants client02 = {|0, 2|}" and c: "calls client02 = []"
    by (simp_all add: client02_def)
  from C8_Abort_sends_and_awaits_all [of client02] show ?thesis
    unfolding p sorted_02 c by simp
qed

subsection \<open>Claims about the participant set\<close>

text \<open>
  Claim C4: \<^verbatim>\<open>Begin\<close> empties the participant set whatever it was. After any sequence
  of \<^verbatim>\<open>Get\<close> and \<^verbatim>\<open>Put\<close> calls that follows, the participant set is the set of
  shards that were sent a \<^verbatim>\<open>Get\<close> or a \<^verbatim>\<open>Put\<close> since then, which is the set of shards
  that the router gives for the keys. Every call that \<^verbatim>\<open>Prepare\<close>, \<^verbatim>\<open>Commit\<close> and
  \<^verbatim>\<open>Abort\<close> make goes to a shard of the participant set, and they leave the set as it
  is.
\<close>

theorem C4_participants_are_the_touched_shards:
  "participants (Begin s) = {||} \<and>
   fset (participants (run_ops f ops (Begin s)))
     = data_shards (new_calls s (run_ops f ops (Begin s))) \<and>
   fset (participants (run_ops f ops (Begin s))) = (\<lambda>op. f (op_key op) (nshards s)) ` set ops \<and>
   (\<forall>ev \<in> set (new_calls c (snd (snd (Prepare ts0 now vote t c)))). shard_of ev |\<in>| participants c) \<and>
   (\<forall>ev \<in> set (new_calls c (snd (Commit e c))). shard_of ev |\<in>| participants c) \<and>
   (\<forall>ev \<in> set (new_calls c (Abort c)). shard_of ev |\<in>| participants c) \<and>
   participants (snd (snd (Prepare ts0 now vote t c))) = participants c \<and>
   participants (snd (Commit e c)) = participants c \<and>
   participants (Abort c) = participants c"
proof -
  have b: "participants (Begin s) = {||}" "calls (Begin s) = calls s" "nshards (Begin s) = nshards s"
    by (simp_all add: Begin_def)
  from run_ops_state [of f ops "Begin s"] obtain X where
    r: "run_ops f ops (Begin s)
        = (Begin s)\<lparr>participants := fset_of_list (map (\<lambda>op. f (op_key op) (nshards s)) ops),
                    calls := calls s @ X\<rparr>"
    and X: "data_shards X = (\<lambda>op. f (op_key op) (nshards s)) ` set ops"
    unfolding b by auto
  have ops: "fset (participants (run_ops f ops (Begin s)))
        = data_shards (new_calls s (run_ops f ops (Begin s)))"
    "fset (participants (run_ops f ops (Begin s))) = (\<lambda>op. f (op_key op) (nshards s)) ` set ops"
    unfolding r by (simp_all add: X new_calls_def fset_of_list.rep_eq)
  from Prepare_calls_shards [of ts0 now vote t c] obtain P where
    P: "snd (snd (Prepare ts0 now vote t c)) = c\<lparr>calls := calls c @ P\<rparr>"
    "\<forall>ev \<in> set P. shard_of ev |\<in>| participants c"
    by blast
  from Commit_state [of e c] obtain k C where
    C: "snd (Commit e c) = c\<lparr>retries := k, calls := calls c @ C\<rparr>"
    "\<forall>ev \<in> set C. shard_of ev |\<in>| participants c"
    by blast
  have A: "Abort c = c\<lparr>calls := calls c @ abort_calls (participants c)\<rparr>"
    "\<forall>ev \<in> set (abort_calls (participants c)). shard_of ev |\<in>| participants c"
    using abort_calls_shards by (simp_all add: Abort_calls)
  show ?thesis
    unfolding P(1) C(1) A(1) using b(1) ops P(2) C(2) A(2) by simp
qed

theorem C4_witness:
  "participants client1 = {|1|} \<and> participants (Begin client1) = {||} \<and>
   participants scenario_A = {|0, 2|} \<and>
   data_shards (new_calls client1 scenario_A) = {0, 2} \<and>
   1 \<notin> shard_of ` set (new_calls scenario_A
          (snd (snd (Prepare 0 80 (prepare_vote env_retry_ok 0) \<lparr>getTimestamp = 10, getID = 7\<rparr>
             scenario_A)))) \<and>
   1 \<notin> shard_of ` set (new_calls scenario_A (snd (Commit env_retry_ok scenario_A))) \<and>
   1 \<notin> shard_of ` set (new_calls scenario_A (Abort scenario_A)) \<and>
   participants (snd (Commit env_retry_ok scenario_A)) = {|0, 2|}"
proof -
  have p1: "participants client1 = {|1|}"
    by (simp add: client1_def)
  have pA: "participants scenario_A = {|0, 2|}"
    by (simp add: scenario_A_def run_ops_def Get_def Put_def add_participant_def by_length_def
        Begin_def client1_def Let_def) auto
  have n: "(1::int) |\<notin>| {|0, 2|}" by simp
  from C4_participants_are_the_touched_shards [of client1 by_length
      "[Get_op ''abc'' ''x'' REPLY_OK, Put_op ''ab'' ''y'' REPLY_OK, Get_op ''def'' ''z'' REPLY_TIMEOUT]"
      scenario_A 0 80 "prepare_vote env_retry_ok 0" "\<lparr>getTimestamp = 10, getID = 7\<rparr>" env_retry_ok,
      folded scenario_A_def]
  show ?thesis
    unfolding pA using n p1 by auto
qed

end
